theory Spec2Isabelle
  imports Main "HOL-Library.AList"
begin

section \<open>JavaScript values used by the thinking updater\<close>

text \<open>
  A JavaScript string is a sequence of UTF-16 code units; \<open>length\<close>, \<open>slice\<close> and
  \<open>===\<close> all work on code units. A string is therefore a list of code units, each a
  natural number. ASCII literals of the source are written with \<open>ascii\<close>; the
  markers outside ASCII are given by their code units.
\<close>

type_synonym jsstring = "nat list"

definition ascii :: "string \<Rightarrow> jsstring" where
  "ascii s = map of_char s"

definition ELLIPSIS :: jsstring where
  "ELLIPSIS = [0x2026]"

definition BRAIN :: jsstring where
  "BRAIN = [0xD83E, 0xDDE0]"

definition CROSS_MARK :: jsstring where
  "CROSS_MARK = [0x274C]"

definition CHECK_MARK :: jsstring where
  "CHECK_MARK = [0x2705]"

definition HOURGLASS :: jsstring where
  "HOURGLASS = [0x23F3]"

definition EM_DASH :: jsstring where
  "EM_DASH = [0x2014]"

text \<open>
  \<open>Array.prototype.slice\<close> and \<open>String.prototype.slice\<close>: a negative index counts
  from the end, both indices are clamped to the length, and an empty range gives the
  empty sequence. \<open>js_slice_from\<close> is the call with the end omitted.
\<close>

definition js_slice :: "'a list \<Rightarrow> int \<Rightarrow> int \<Rightarrow> 'a list" where
  "js_slice xs start fin =
     (let len = int (length xs);
          from = (if start < 0 then max (len + start) 0 else min start len);
          to = (if fin < 0 then max (len + fin) 0 else min fin len)
      in take (nat (to - from)) (drop (nat from) xs))"

definition js_slice_from :: "'a list \<Rightarrow> int \<Rightarrow> 'a list" where
  "js_slice_from xs start = js_slice xs start (int (length xs))"

text \<open>\<open>Array.prototype.join\<close> on an array of strings.\<close>

fun js_join :: "jsstring \<Rightarrow> jsstring list \<Rightarrow> jsstring" where
  "js_join sep [] = []"
| "js_join sep [p] = p"
| "js_join sep (p # q # ps) = p @ sep @ js_join sep (q # ps)"

text \<open>
  \<open>String.prototype.trim\<close> removes white space and line terminators at both ends.
\<close>

definition isWhiteSpace :: "nat \<Rightarrow> bool" where
  "isWhiteSpace c \<longleftrightarrow>
     c \<in> {0x09, 0x0A, 0x0B, 0x0C, 0x0D, 0x20, 0xA0, 0x1680, 0x2028, 0x2029, 0x202F,
          0x205F, 0x3000, 0xFEFF} \<or> (0x2000 \<le> c \<and> c \<le> 0x200A)"

definition trim :: "jsstring \<Rightarrow> jsstring" where
  "trim s = rev (dropWhile isWhiteSpace (rev (dropWhile isWhiteSpace s)))"

text \<open>
  \<open>String.prototype.toLowerCase\<close>, on the ASCII letters. The code units outside
  ASCII are left alone: the only use of the result is the lookup in the extractor table,
  and the names that the lookup can find, the keys of the table and the members it
  inherits, are ASCII and contain none of the letters that a letter outside ASCII
  lowers to.
\<close>

definition toLowerCase :: "jsstring \<Rightarrow> jsstring" where
  "toLowerCase s = map (\<lambda>c. if 0x41 \<le> c \<and> c \<le> 0x5A then c + 0x20 else c) s"

text \<open>A value of type \<open>unknown\<close>: a string, or anything else.\<close>

datatype jsvalue = JString jsstring | JOther

text \<open>
  An argument record \<open>Record<string, unknown>\<close>, as the list of its own properties
  in the order \<open>Object.values\<close> enumerates them.
\<close>

type_synonym jsrecord = "(jsstring \<times> jsvalue) list"

section \<open>Configuration and tool entries\<close>

record ThinkingConfig =
  updateInterval :: "int option"
  maxLength :: "int option"

record ToolDisplayConfig =
  enabled :: "bool option"
  showArgs :: "bool option"
  maxArgsLength :: "int option"

record ToolEntry =
  name :: jsstring
  args :: "jsrecord option"
  startedAt :: int

record CompletedToolEntry = ToolEntry +
  failed :: bool
  duration :: int

section \<open>The renderer\<close>

text \<open>
  An exception thrown while rendering. The only one that the renderer can throw is
  the \<open>TypeError\<close> of a \<open>for ... of\<close> over a value that is not iterable.
\<close>

datatype jserror = TypeError

text \<open>
  The table of candidate keys is an object literal, so the read
  \<open>TOOL_ARG_EXTRACTORS[key]\<close> finds the table's own keys and, for any other key,
  the members that every object inherits from \<open>Object.prototype\<close>. A lowered tool
  name has no upper-case letter, which leaves two inherited members within reach:
  \<open>constructor\<close> (a function) and \<open>__proto__\<close> (an object). Both are truthy and
  neither is iterable.
\<close>

definition TOOL_ARG_EXTRACTORS :: "(jsstring \<times> jsstring list) list" where
  "TOOL_ARG_EXTRACTORS =
     [(ascii ''read'', [ascii ''path'']),
      (ascii ''write'', [ascii ''path'']),
      (ascii ''edit'', [ascii ''file_path'']),
      (ascii ''exec'', [ascii ''command'']),
      (ascii ''bash'', [ascii ''command'']),
      (ascii ''search'', [ascii ''pattern'', ascii ''query'']),
      (ascii ''grep'', [ascii ''pattern'']),
      (ascii ''glob'', [ascii ''pattern'']),
      (ascii ''web_search'', [ascii ''query'']),
      (ascii ''web_fetch'', [ascii ''url'']),
      (ascii ''list_directory'', [ascii ''path''])]"

definition INHERITED_MEMBERS :: "jsstring list" where
  "INHERITED_MEMBERS = [ascii ''constructor'', ascii ''__proto__'']"

datatype member = KeyList "jsstring list" | NotIterable

definition tableMember :: "jsstring \<Rightarrow> member option" where
  "tableMember key =
     (case map_of TOOL_ARG_EXTRACTORS key of
        Some keys \<Rightarrow> Some (KeyList keys)
      | None \<Rightarrow> (if key \<in> set INHERITED_MEMBERS then Some NotIterable else None))"

text \<open>
  The body shared by both loops of \<open>extractToolArgs\<close>: a value that is a string
  with a non-empty trimmed form ends the search with that form, cut to \<open>maxLen\<close>
  code units and marked with an ellipsis when it was longer.
\<close>

definition clipArg :: "jsvalue option \<Rightarrow> int \<Rightarrow> jsstring option" where
  "clipArg val maxLen =
     (case val of
        Some (JString v) \<Rightarrow>
          (if trim v \<noteq> [] then
             (let trimmed = trim v
              in Some (if int (length trimmed) > maxLen
                       then js_slice trimmed 0 maxLen @ ELLIPSIS else trimmed))
           else None)
      | _ \<Rightarrow> None)"

fun firstKeyed :: "jsrecord \<Rightarrow> jsstring list \<Rightarrow> int \<Rightarrow> jsstring option" where
  "firstKeyed rec [] maxLen = None"
| "firstKeyed rec (key # keys) maxLen =
     (case clipArg (map_of rec key) maxLen of
        Some r \<Rightarrow> Some r
      | None \<Rightarrow> firstKeyed rec keys maxLen)"

fun firstString :: "jsvalue list \<Rightarrow> int \<Rightarrow> jsstring" where
  "firstString [] maxLen = []"
| "firstString (val # vals) maxLen =
     (case clipArg (Some val) maxLen of
        Some r \<Rightarrow> r
      | None \<Rightarrow> firstString vals maxLen)"

text \<open>
  \<open>extractToolArgs\<close> returns the empty string when there are no arguments, before
  the table is read. With arguments, a member that is a list of keys is searched first
  and the values of the record second; a member that is not iterable makes the
  \<open>for ... of\<close> throw.
\<close>

definition extractToolArgs :: "jsstring \<Rightarrow> jsrecord option \<Rightarrow> int \<Rightarrow> jserror + jsstring" where
  "extractToolArgs nm as maxLen =
     (case as of
        None \<Rightarrow> Inr []
      | Some rec \<Rightarrow>
          (case tableMember (toLowerCase nm) of
             Some NotIterable \<Rightarrow> Inl TypeError
           | Some (KeyList keys) \<Rightarrow>
               (case firstKeyed rec keys maxLen of
                  Some r \<Rightarrow> Inr r
                | None \<Rightarrow> Inr (firstString (map snd rec) maxLen))
           | None \<Rightarrow> Inr (firstString (map snd rec) maxLen)))"

text \<open>\<open>escapeHtml\<close>: three global replacements, one after the other.\<close>

definition replaceAll :: "nat \<Rightarrow> jsstring \<Rightarrow> jsstring \<Rightarrow> jsstring" where
  "replaceAll c rep s = concat (map (\<lambda>x. if x = c then rep else [x]) s)"

definition escapeHtml :: "jsstring \<Rightarrow> jsstring" where
  "escapeHtml s =
     replaceAll 0x3E (ascii ''&gt;'')
       (replaceAll 0x3C (ascii ''&lt;'')
         (replaceAll 0x26 (ascii ''&amp;'') s))"

text \<open>
  The truncation of the thinking text (lines 84 to 87): the test against
  \<open>maxLength - 200\<close> and the slice from \<open>-(maxLength - 200)\<close>.
\<close>

definition trimThinking :: "jsstring \<Rightarrow> int \<Rightarrow> jsstring" where
  "trimThinking thinkingText maxLen =
     (if int (length thinkingText) > maxLen - 200
      then ELLIPSIS @ js_slice_from thinkingText (- (maxLen - 200))
      else thinkingText)"

text \<open>
  The body of the two loops over the tools: the argument string, which is where an
  exception can come from, and the line made of the icon, the name and the arguments.
\<close>

definition argStrOf ::
  "ToolDisplayConfig \<Rightarrow> jsstring \<Rightarrow> jsrecord option \<Rightarrow> jserror + jsstring" where
  "argStrOf toolDisplay nm as =
     (if showArgs toolDisplay \<noteq> Some False
      then extractToolArgs nm as (case maxArgsLength toolDisplay of Some n \<Rightarrow> n | None \<Rightarrow> 150)
      else Inr [])"

definition toolLine :: "jsstring \<Rightarrow> jsstring \<Rightarrow> jsstring \<Rightarrow> jsstring" where
  "toolLine icon nm argStr =
     (if argStr \<noteq> []
      then icon @ ascii '' <code>'' @ escapeHtml nm @ ascii ''</code> '' @ escapeHtml argStr
      else icon @ ascii '' <code>'' @ escapeHtml nm @ ascii ''</code>'')"

definition completedLine :: "ToolDisplayConfig \<Rightarrow> CompletedToolEntry \<Rightarrow> jserror + jsstring" where
  "completedLine toolDisplay completed =
     (let icon = (if failed completed then CROSS_MARK else CHECK_MARK)
      in case argStrOf toolDisplay (name completed) (args completed) of
           Inl err \<Rightarrow> Inl err
         | Inr argStr \<Rightarrow> Inr (toolLine icon (name completed) argStr))"

definition activeLine :: "ToolDisplayConfig \<Rightarrow> ToolEntry \<Rightarrow> jserror + jsstring" where
  "activeLine toolDisplay entry =
     (case argStrOf toolDisplay (name entry) (args entry) of
        Inl err \<Rightarrow> Inl err
      | Inr argStr \<Rightarrow> Inr (toolLine HOURGLASS (name entry) argStr))"

text \<open>
  The two \<open>for\<close> loops of \<open>buildMessage\<close>, each pushing one line per entry. An
  exception leaves the loop and the function at the entry that raised it.
\<close>

fun pushCompleted ::
  "ToolDisplayConfig \<Rightarrow> CompletedToolEntry list \<Rightarrow> jsstring list \<Rightarrow> jserror + jsstring list"
  where
  "pushCompleted toolDisplay [] parts = Inr parts"
| "pushCompleted toolDisplay (completed # rest) parts =
     (case completedLine toolDisplay completed of
        Inl err \<Rightarrow> Inl err
      | Inr line \<Rightarrow> pushCompleted toolDisplay rest (parts @ [line]))"

fun pushActive ::
  "ToolDisplayConfig \<Rightarrow> (jsstring \<times> ToolEntry) list \<Rightarrow> jsstring list \<Rightarrow>
     jserror + jsstring list" where
  "pushActive toolDisplay [] parts = Inr parts"
| "pushActive toolDisplay ((tid, entry) # rest) parts =
     (case activeLine toolDisplay entry of
        Inl err \<Rightarrow> Inl err
      | Inr line \<Rightarrow> pushActive toolDisplay rest (parts @ [line]))"

text \<open>
  \<open>buildMessage\<close> in three stages, as the source has them: the thinking block, the
  tool section, and the placeholder when nothing was pushed. An absent and an empty
  thinking text are both falsy.
\<close>

definition thinkingParts :: "jsstring option \<Rightarrow> int \<Rightarrow> jsstring list" where
  "thinkingParts thinkingText maxLen =
     (case thinkingText of
        None \<Rightarrow> []
      | Some text \<Rightarrow>
          (if text = [] then []
           else [BRAIN @ ascii '' <b>Thinking</b>'',
                 [],
                 ascii ''<blockquote>'' @ escapeHtml (trimThinking text maxLen)
                   @ ascii ''</blockquote>'']))"

definition toolParts ::
  "(jsstring \<times> ToolEntry) list \<Rightarrow> CompletedToolEntry list \<Rightarrow> ToolDisplayConfig \<Rightarrow>
     jsstring list \<Rightarrow> jserror + jsstring list" where
  "toolParts activeTools completedTools toolDisplay parts =
     (if enabled toolDisplay \<noteq> Some False \<and>
         (length activeTools > 0 \<or> length completedTools > 0)
      then
        (let parts1 = (if length parts > 0 then parts @ [[]] else parts)
         in case pushCompleted toolDisplay (js_slice_from completedTools (- 10)) parts1 of
              Inl err \<Rightarrow> Inl err
            | Inr parts2 \<Rightarrow> pushActive toolDisplay activeTools parts2)
      else Inr parts)"

definition buildParts ::
  "jsstring option \<Rightarrow> (jsstring \<times> ToolEntry) list \<Rightarrow> CompletedToolEntry list \<Rightarrow>
     ToolDisplayConfig \<Rightarrow> int \<Rightarrow> jserror + jsstring list" where
  "buildParts thinkingText activeTools completedTools toolDisplay maxLen =
     (case toolParts activeTools completedTools toolDisplay
             (thinkingParts thinkingText maxLen) of
        Inl err \<Rightarrow> Inl err
      | Inr parts \<Rightarrow>
          Inr (if length parts = 0
               then parts @ [BRAIN @ ascii '' <b>Thinking'' @ ELLIPSIS @ ascii ''</b>'']
               else parts))"

definition capResult :: "jsstring \<Rightarrow> jsstring" where
  "capResult result =
     (if length result > 4096 then js_slice result 0 4093 @ ELLIPSIS else result)"

text \<open>\<open>composed\<close> is the parts joined by line feeds, the text before the cap of 4096.\<close>

definition composed ::
  "jsstring option \<Rightarrow> (jsstring \<times> ToolEntry) list \<Rightarrow> CompletedToolEntry list \<Rightarrow>
     ToolDisplayConfig \<Rightarrow> int \<Rightarrow> jserror + jsstring" where
  "composed thinkingText activeTools completedTools toolDisplay maxLen =
     (case buildParts thinkingText activeTools completedTools toolDisplay maxLen of
        Inl err \<Rightarrow> Inl err
      | Inr parts \<Rightarrow> Inr (js_join (ascii [CHR 0x0A]) parts))"

definition buildMessage ::
  "jsstring option \<Rightarrow> (jsstring \<times> ToolEntry) list \<Rightarrow> CompletedToolEntry list \<Rightarrow>
     ToolDisplayConfig \<Rightarrow> int \<Rightarrow> jserror + jsstring" where
  "buildMessage thinkingText activeTools completedTools toolDisplay maxLen =
     (case composed thinkingText activeTools completedTools toolDisplay maxLen of
        Inl err \<Rightarrow> Inl err
      | Inr result \<Rightarrow> Inr (capResult result))"

section \<open>The updater\<close>

text \<open>
  The closure of \<open>createThinkingUpdater\<close> as a record. The first ten fields are the
  variables of the closure. A message identifier is a number or \<open>undefined\<close>; an
  armed timer is kept as the time \<open>setTimeout\<close> was asked to run the callback at,
  which is the time of the call plus the delay.

  The remaining fields are the surroundings of the closure: the async calls that are
  suspended at an \<open>await\<close>, the transport calls issued so far with the time of
  each, the contents of the calls of \<open>sendOrEdit\<close> that the transport resolved,
  the lines passed to \<open>logVerbose\<close>, the exceptions of \<open>sendOrEdit\<close> that
  left \<open>doFlush\<close>, the exceptions of the renderer, with which \<open>doFlush\<close> ends
  before it reaches \<open>sendOrEdit\<close>, and the last value \<open>Date.now()\<close> returned.

  A transport call is named after the place that makes it: \<open>SendMessage\<close> and
  \<open>EditMessageText\<close> are the two calls of \<open>sendOrEdit\<close>,
  \<open>CollapseEditMessageText\<close> is the call of \<open>editMessageText\<close> in
  \<open>collapse\<close>, and \<open>DeleteMessage\<close> the call in \<open>delete\<close>. A frame is a
  suspended async call: one awaiting the transport, or \<open>doFlush\<close> awaiting
  \<open>sendOrEdit\<close> after it has returned (with the exception it threw, if any).
\<close>

datatype call =
    SendMessage jsstring
  | EditMessageText int jsstring
  | CollapseEditMessageText int jsstring
  | DeleteMessage int

datatype outcome = Resolved int | Rejected jsstring

datatype frame =
    AwaitTransport call
  | AwaitSendOrEdit "jsstring option"

record params =
  thinkingConfig :: ThinkingConfig
  toolDisplay :: ToolDisplayConfig

record state =
  messageId :: "int option"
  thinkingText :: "jsstring option"
  activeTools :: "(jsstring \<times> ToolEntry) list"
  completedTools :: "CompletedToolEntry list"
  lastSentContent :: jsstring
  lastSentAt :: int
  timer :: "int option"
  inFlight :: bool
  stopped :: bool
  pendingUpdate :: bool
  frames :: "frame list"
  calls :: "(int \<times> call) list"
  delivered :: "jsstring list"
  logged :: "jsstring list"
  uncaught :: "jsstring list"
  renderErrors :: "jserror list"
  clock :: int

definition updateIntervalOf :: "params \<Rightarrow> int" where
  "updateIntervalOf p = (case updateInterval (thinkingConfig p) of Some n \<Rightarrow> n | None \<Rightarrow> 800)"

definition maxLengthOf :: "params \<Rightarrow> int" where
  "maxLengthOf p = (case maxLength (thinkingConfig p) of Some n \<Rightarrow> n | None \<Rightarrow> 3800)"

definition createThinkingUpdater :: state where
  "createThinkingUpdater =
     \<lparr>messageId = None, thinkingText = None, activeTools = [], completedTools = [],
      lastSentContent = [], lastSentAt = 0, timer = None, inFlight = False,
      stopped = False, pendingUpdate = False,
      frames = [], calls = [], delivered = [], logged = [], uncaught = [],
      renderErrors = [], clock = 0\<rparr>"

text \<open>
  The truthiness test on \<open>messageId\<close>: \<open>undefined\<close> and the number 0 are falsy.
  The result is the identifier when it is truthy.
\<close>

definition truthyId :: "int option \<Rightarrow> int option" where
  "truthyId m = (case m of None \<Rightarrow> None | Some n \<Rightarrow> if n = 0 then None else Some n)"

text \<open>
  Calling a transport operation: the call is recorded with its time, and the caller
  is suspended until the call settles.
\<close>

definition issue :: "int \<Rightarrow> call \<Rightarrow> state \<Rightarrow> state" where
  "issue now c s = s\<lparr>calls := calls s @ [(now, c)], frames := frames s @ [AwaitTransport c]\<rparr>"

text \<open>
  \<open>sendOrEdit\<close> up to its \<open>await\<close>. The flag tells whether it is suspended at a
  transport call (\<open>True\<close>) or has returned (\<open>False\<close>).
\<close>

definition sendOrEdit :: "int \<Rightarrow> jsstring \<Rightarrow> state \<Rightarrow> bool \<times> state" where
  "sendOrEdit now content s =
     (if stopped s \<or> content = lastSentContent s then (False, s)
      else
        (let s1 = s\<lparr>lastSentContent := content, lastSentAt := now\<rparr>
         in (True,
             case truthyId (messageId s1) of
               None \<Rightarrow> issue now (SendMessage content) s1
             | Some mid \<Rightarrow> issue now (EditMessageText mid content) s1)))"

text \<open>The \<open>catch\<close> blocks: the message handed to \<open>logVerbose\<close>.\<close>

definition failureLine :: "jsstring \<Rightarrow> jsstring \<Rightarrow> jsstring" where
  "failureLine what err = ascii ''thinking-updater: '' @ what @ ascii '' failed: '' @ err"

text \<open>
  \<open>sendOrEdit\<close> after its \<open>await\<close>: a resolved \<open>sendMessage\<close> stores the
  identifier, a rejected call is caught and logged. The result is the exception that
  leaves \<open>sendOrEdit\<close>, if any.
\<close>

definition sendOrEditResume :: "call \<Rightarrow> outcome \<Rightarrow> state \<Rightarrow> jsstring option \<times> state" where
  "sendOrEditResume c out s =
     (case out of
        Resolved mid \<Rightarrow>
          (case c of
             SendMessage content \<Rightarrow>
               (None, s\<lparr>messageId := Some mid, delivered := delivered s @ [content]\<rparr>)
           | EditMessageText m content \<Rightarrow>
               (None, s\<lparr>delivered := delivered s @ [content]\<rparr>)
           | _ \<Rightarrow> (None, s))
      | Rejected err \<Rightarrow>
          (None, s\<lparr>logged := logged s @
             [failureLine (case truthyId (messageId s) of
                             Some mid \<Rightarrow> ascii ''edit'' | None \<Rightarrow> ascii ''send'') err]\<rparr>))"

text \<open>
  The delay of a timer, as \<open>setTimeout\<close> of Node takes it: a delay above
  \<open>2147483647\<close> (the largest signed 32-bit integer) or below 1 is replaced by 1.
\<close>

definition TIMEOUT_MAX :: int where
  "TIMEOUT_MAX = 2147483647"

definition setTimeoutDelay :: "int \<Rightarrow> int" where
  "setTimeoutDelay delay = (if delay < 1 \<or> TIMEOUT_MAX < delay then 1 else delay)"

definition schedule :: "params \<Rightarrow> int \<Rightarrow> state \<Rightarrow> state" where
  "schedule p now s =
     (if timer s \<noteq> None \<or> stopped s then s
      else
        (let delay = max 0 (updateIntervalOf p - (now - lastSentAt s))
         in s\<lparr>timer := Some (now + setTimeoutDelay delay)\<rparr>))"

text \<open>
  \<open>doFlush\<close> up to its \<open>await\<close>. An exception of \<open>buildMessage\<close> ends the
  call after the timer was cleared and before \<open>inFlight\<close> is set: nothing is sent.
\<close>

definition doFlush :: "params \<Rightarrow> int \<Rightarrow> state \<Rightarrow> state" where
  "doFlush p now s =
     (if stopped s then s
      else
        (let s1 = (if timer s \<noteq> None then s\<lparr>timer := None\<rparr> else s)
         in if inFlight s1 then s1\<lparr>pendingUpdate := True\<rparr>
            else
              (case buildMessage (thinkingText s1) (activeTools s1)
                      (completedTools s1) (toolDisplay p) (maxLengthOf p) of
                 Inl err \<Rightarrow> s1\<lparr>renderErrors := renderErrors s1 @ [err]\<rparr>
               | Inr content \<Rightarrow>
                   (let s2 = s1\<lparr>inFlight := True\<rparr>
                    in case sendOrEdit now content s2 of
                         (True, s3) \<Rightarrow> s3
                       | (False, s3) \<Rightarrow>
                           s3\<lparr>frames := frames s3 @ [AwaitSendOrEdit None]\<rparr>))))"

text \<open>
  \<open>doFlush\<close> after its \<open>await\<close>: the \<open>finally\<close> block runs in every case; an
  exception from \<open>sendOrEdit\<close> then leaves \<open>doFlush\<close> and skips the rest.
\<close>

definition doFlushResume :: "params \<Rightarrow> int \<Rightarrow> jsstring option \<Rightarrow> state \<Rightarrow> state" where
  "doFlushResume p now thrown s =
     (let s1 = s\<lparr>inFlight := False\<rparr>
      in case thrown of
           Some err \<Rightarrow> s1\<lparr>uncaught := uncaught s1 @ [err]\<rparr>
         | None \<Rightarrow>
             (if pendingUpdate s1 then schedule p now (s1\<lparr>pendingUpdate := False\<rparr>)
              else s1))"

definition triggerUpdate :: "params \<Rightarrow> int \<Rightarrow> state \<Rightarrow> state" where
  "triggerUpdate p now s =
     (if stopped s then s
      else if inFlight s then schedule p now (s\<lparr>pendingUpdate := True\<rparr>)
      else if timer s = None \<and> now - lastSentAt s \<ge> updateIntervalOf p then doFlush p now s
      else schedule p now s)"

text \<open>The methods of the returned object.\<close>

definition start :: "params \<Rightarrow> int \<Rightarrow> state \<Rightarrow> state" where
  "start p now s = triggerUpdate p now s"

definition update :: "params \<Rightarrow> int \<Rightarrow> jsstring \<Rightarrow> state \<Rightarrow> state" where
  "update p now text s = triggerUpdate p now (s\<lparr>thinkingText := Some text\<rparr>)"

definition flush :: "params \<Rightarrow> int \<Rightarrow> state \<Rightarrow> state" where
  "flush p now s = doFlush p now s"

definition clearTimer :: "state \<Rightarrow> state" where
  "clearTimer s = (if timer s \<noteq> None then s\<lparr>timer := None\<rparr> else s)"

definition stop :: "state \<Rightarrow> state" where
  "stop s = clearTimer (s\<lparr>stopped := True\<rparr>)"

definition delete :: "int \<Rightarrow> state \<Rightarrow> state" where
  "delete now s =
     (let s1 = clearTimer (s\<lparr>stopped := True\<rparr>)
      in case truthyId (messageId s1) of
           Some mid \<Rightarrow> issue now (DeleteMessage mid) s1
         | None \<Rightarrow> s1)"

fun decimal :: "nat \<Rightarrow> jsstring" where
  "decimal n = (if n < 10 then [0x30 + n] else decimal (n div 10) @ [0x30 + n mod 10])"

definition collapseText :: "jsstring option \<Rightarrow> nat \<Rightarrow> jsstring" where
  "collapseText summary n =
     (case summary of
        Some text \<Rightarrow>
          (if text \<noteq> [] then text
           else BRAIN @ ascii '' <b>Thinking complete</b> '' @ EM_DASH @ ascii '' '' @ decimal n
                  @ ascii '' tool'' @ (if n \<noteq> 1 then ascii ''s'' else []) @ ascii '' used'')
      | None \<Rightarrow>
          BRAIN @ ascii '' <b>Thinking complete</b> '' @ EM_DASH @ ascii '' '' @ decimal n
            @ ascii '' tool'' @ (if n \<noteq> 1 then ascii ''s'' else []) @ ascii '' used'')"

definition collapse :: "int \<Rightarrow> jsstring option \<Rightarrow> state \<Rightarrow> state" where
  "collapse now summary s =
     (let s1 = clearTimer (s\<lparr>stopped := True\<rparr>)
      in case truthyId (messageId s1) of
           None \<Rightarrow> s1
         | Some mid \<Rightarrow>
             issue now
               (CollapseEditMessageText mid
                  (collapseText summary (length (completedTools s1)))) s1)"

definition toolStart ::
  "params \<Rightarrow> int \<Rightarrow> jsstring \<Rightarrow> jsstring \<Rightarrow> jsrecord option \<Rightarrow> state \<Rightarrow> state" where
  "toolStart p now tid nm as s =
     triggerUpdate p now
       (s\<lparr>activeTools :=
            AList.update tid \<lparr>name = nm, args = as, startedAt = now\<rparr> (activeTools s)\<rparr>)"

definition toolEnd :: "params \<Rightarrow> int \<Rightarrow> jsstring \<Rightarrow> bool \<Rightarrow> state \<Rightarrow> state" where
  "toolEnd p now tid fl s =
     triggerUpdate p now
       (case map_of (activeTools s) tid of
          Some entry \<Rightarrow>
            s\<lparr>activeTools := AList.delete tid (activeTools s),
              completedTools := completedTools s @
                [\<lparr>name = name entry, args = args entry, startedAt = startedAt entry,
                  failed = fl, duration = now - startedAt entry\<rparr>]\<rparr>
        | None \<Rightarrow> s)"

text \<open>The callback handed to \<open>setTimeout\<close> in \<open>schedule\<close>.\<close>

definition timerCallback :: "params \<Rightarrow> int \<Rightarrow> state \<Rightarrow> state" where
  "timerCallback p now s = doFlush p now (s\<lparr>timer := None\<rparr>)"

subsection \<open>Events\<close>

text \<open>
  JavaScript runs one piece of code at a time, and an async function gives up control
  only at an \<open>await\<close>. One event is one such piece: a call of a method of the updater,
  the timer callback, the settling of a transport call (which resumes the function
  awaiting it), or the resumption of \<open>doFlush\<close> once \<open>sendOrEdit\<close> has returned.
  Every event carries the value \<open>Date.now()\<close> has while it runs, and the clock
  never goes back. The timer callback can run at any time while a timer is armed: when
  it runs is up to the runtime, and the callback does not look at the clock. An event
  that cannot happen in a state has no successor.
\<close>

datatype event =
    Start
  | Update jsstring
  | Flush
  | Stop
  | Delete
  | Collapse "jsstring option"
  | ToolStart jsstring jsstring "jsrecord option"
  | ToolEnd jsstring bool
  | TimerFire
  | Settle nat outcome
  | Resume nat

definition dropFrame :: "nat \<Rightarrow> state \<Rightarrow> state" where
  "dropFrame i s = s\<lparr>frames := take i (frames s) @ drop (Suc i) (frames s)\<rparr>"

definition settle :: "nat \<Rightarrow> outcome \<Rightarrow> state \<Rightarrow> state option" where
  "settle i out s =
     (if i < length (frames s) then
        (case frames s ! i of
           AwaitTransport c \<Rightarrow>
             (case c of
                CollapseEditMessageText mid text \<Rightarrow>
                  (case out of
                     Resolved r \<Rightarrow> Some (dropFrame i s)
                   | Rejected err \<Rightarrow>
                       Some (dropFrame i
                         (s\<lparr>logged := logged s @ [failureLine (ascii ''collapse'') err]\<rparr>)))
              | DeleteMessage mid \<Rightarrow>
                  (case out of
                     Resolved r \<Rightarrow> Some (dropFrame i (s\<lparr>messageId := None\<rparr>))
                   | Rejected err \<Rightarrow>
                       Some (dropFrame i
                         (s\<lparr>logged := logged s @ [failureLine (ascii ''delete'') err],
                            messageId := None\<rparr>)))
              | _ \<Rightarrow>
                  (case sendOrEditResume c out s of
                     (thrown, s1) \<Rightarrow>
                       Some (s1\<lparr>frames := (frames s1)[i := AwaitSendOrEdit thrown]\<rparr>)))
         | AwaitSendOrEdit thrown \<Rightarrow> None)
      else None)"

definition resume :: "params \<Rightarrow> int \<Rightarrow> nat \<Rightarrow> state \<Rightarrow> state option" where
  "resume p now i s =
     (if i < length (frames s) then
        (case frames s ! i of
           AwaitSendOrEdit thrown \<Rightarrow> Some (doFlushResume p now thrown (dropFrame i s))
         | AwaitTransport c \<Rightarrow> None)
      else None)"

definition step :: "params \<Rightarrow> int \<times> event \<Rightarrow> state \<Rightarrow> state option" where
  "step p te s =
     (let now = fst te; s0 = s\<lparr>clock := now\<rparr>
      in if now < clock s then None
         else
           (case snd te of
              Start \<Rightarrow> Some (start p now s0)
            | Update text \<Rightarrow> Some (update p now text s0)
            | Flush \<Rightarrow> Some (flush p now s0)
            | Stop \<Rightarrow> Some (stop s0)
            | Delete \<Rightarrow> Some (delete now s0)
            | Collapse summary \<Rightarrow> Some (collapse now summary s0)
            | ToolStart tid nm as \<Rightarrow> Some (toolStart p now tid nm as s0)
            | ToolEnd tid fl \<Rightarrow> Some (toolEnd p now tid fl s0)
            | TimerFire \<Rightarrow>
                (case timer s0 of
                   Some due \<Rightarrow> Some (timerCallback p now s0)
                 | None \<Rightarrow> None)
            | Settle i out \<Rightarrow> settle i out s0
            | Resume i \<Rightarrow> resume p now i s0))"

fun run :: "params \<Rightarrow> state \<Rightarrow> (int \<times> event) list \<Rightarrow> state option" where
  "run p s [] = Some s"
| "run p s (te # tes) = (case step p te s of None \<Rightarrow> None | Some s1 \<Rightarrow> run p s1 tes)"

subsection \<open>Observations on a state\<close>

text \<open>
  A delivery call is a transport call made by \<open>sendOrEdit\<close>, that is, by a delivery
  cycle; \<open>contentOf\<close> is the text it carries.
\<close>

fun isDelivery :: "call \<Rightarrow> bool" where
  "isDelivery (SendMessage content) = True"
| "isDelivery (EditMessageText mid content) = True"
| "isDelivery (CollapseEditMessageText mid text) = False"
| "isDelivery (DeleteMessage mid) = False"

fun contentOf :: "call \<Rightarrow> jsstring" where
  "contentOf (SendMessage content) = content"
| "contentOf (EditMessageText mid content) = content"
| "contentOf (CollapseEditMessageText mid text) = text"
| "contentOf (DeleteMessage mid) = []"

text \<open>The transport calls that have been issued and have not settled yet.\<close>

fun outstanding :: "frame list \<Rightarrow> call list" where
  "outstanding [] = []"
| "outstanding (AwaitTransport c # fs) = c # outstanding fs"
| "outstanding (AwaitSendOrEdit thrown # fs) = outstanding fs"

text \<open>The frames of a delivery cycle: those that end in the resumption of \<open>doFlush\<close>.\<close>

fun cycleFrame :: "frame \<Rightarrow> bool" where
  "cycleFrame (AwaitTransport c) = isDelivery c"
| "cycleFrame (AwaitSendOrEdit thrown) = True"

text \<open>The time of the most recent delivery call in a log of calls.\<close>

fun lastDeliveryAt :: "(int \<times> call) list \<Rightarrow> int option" where
  "lastDeliveryAt [] = None"
| "lastDeliveryAt ((t, c) # rest) =
     (case lastDeliveryAt rest of
        Some t1 \<Rightarrow> Some t1
      | None \<Rightarrow> if isDelivery c then Some t else None)"

text \<open>
  The events that ask for an update, and the events that end the session.
\<close>

fun triggering :: "event \<Rightarrow> bool" where
  "triggering Start = True"
| "triggering (Update text) = True"
| "triggering (ToolStart tid nm as) = True"
| "triggering (ToolEnd tid fl) = True"
| "triggering Flush = True"
| "triggering TimerFire = True"
| "triggering e = False"

fun terminal :: "event \<Rightarrow> bool" where
  "terminal Stop = True"
| "terminal Delete = True"
| "terminal (Collapse summary) = True"
| "terminal e = False"

text \<open>
  The result of \<open>buildMessage\<close> in a state: the text \<open>doFlush\<close> would hand to
  \<open>sendOrEdit\<close>, or the exception.
\<close>

definition rendered :: "params \<Rightarrow> state \<Rightarrow> jserror + jsstring" where
  "rendered p s =
     buildMessage (thinkingText s) (activeTools s) (completedTools s)
       (toolDisplay p) (maxLengthOf p)"

text \<open>
  Two states agree on delivery and scheduling: the same log of calls, the same suspended
  calls, and the same values of the variables that \<open>sendOrEdit\<close>, \<open>doFlush\<close>,
  \<open>schedule\<close> and \<open>triggerUpdate\<close> read and write.
\<close>

definition sameDelivery :: "state \<Rightarrow> state \<Rightarrow> bool" where
  "sameDelivery s s1 \<longleftrightarrow>
     calls s1 = calls s \<and> frames s1 = frames s \<and> timer s1 = timer s
     \<and> messageId s1 = messageId s \<and> lastSentContent s1 = lastSentContent s
     \<and> lastSentAt s1 = lastSentAt s \<and> inFlight s1 = inFlight s
     \<and> pendingUpdate s1 = pendingUpdate s \<and> stopped s1 = stopped s"

subsection \<open>Invariants of the reachable states\<close>

text \<open>
  \<open>flightInv\<close>: the flag \<open>inFlight\<close> counts the delivery cycles that are under
  way (none or one); a delivery call that has not settled carries the text kept in
  \<open>lastSentContent\<close>; no exception has left \<open>sendOrEdit\<close>, and so none of
  its exceptions has left \<open>doFlush\<close>.
\<close>

definition flightInv :: "state \<Rightarrow> bool" where
  "flightInv s \<longleftrightarrow>
     length (filter cycleFrame (frames s)) = (if inFlight s then 1 else 0)
     \<and> (\<forall>c. AwaitTransport c \<in> set (frames s) \<longrightarrow> isDelivery c \<longrightarrow>
            contentOf c = lastSentContent s)
     \<and> (\<forall>err. AwaitSendOrEdit (Some err) \<notin> set (frames s))
     \<and> uncaught s = []"

text \<open>
  \<open>activeInv\<close>, for a session that no terminal call has reached: it is not stopped,
  and every suspended call belongs to a delivery cycle.
\<close>

definition activeInv :: "state \<Rightarrow> bool" where
  "activeInv s \<longleftrightarrow> \<not> stopped s \<and> (\<forall>f \<in> set (frames s). cycleFrame f)"

text \<open>
  \<open>pacedInv\<close>: \<open>lastSentAt\<close> is not in the future and is the time of the most
  recent delivery call; when the interval is a delay that \<open>setTimeout\<close> takes as it
  is, an armed timer was asked to run no earlier than one interval after
  \<open>lastSentAt\<close>.
\<close>

definition pacedInv :: "params \<Rightarrow> state \<Rightarrow> bool" where
  "pacedInv p s \<longleftrightarrow>
     lastSentAt s \<le> clock s
     \<and> (updateIntervalOf p \<le> TIMEOUT_MAX \<longrightarrow>
          (\<forall>due. timer s = Some due \<longrightarrow> lastSentAt s + updateIntervalOf p \<le> due))
     \<and> (\<forall>t. lastDeliveryAt (calls s) = Some t \<longrightarrow> lastSentAt s = t)"

section \<open>Example configurations and states\<close>

definition exDisplay :: ToolDisplayConfig where
  "exDisplay = \<lparr>enabled = None, showArgs = None, maxArgsLength = None\<rparr>"

definition exParams :: params where
  "exParams = \<lparr>thinkingConfig = \<lparr>updateInterval = None, maxLength = None\<rparr>,
               toolDisplay = exDisplay\<rparr>"

definition exEntry :: "nat \<Rightarrow> ToolEntry" where
  "exEntry n = \<lparr>name = ascii ''tool'' @ decimal n, args = None, startedAt = int n\<rparr>"

definition exCompleted :: "nat \<Rightarrow> CompletedToolEntry" where
  "exCompleted n =
     \<lparr>name = ascii ''tool'' @ decimal n, args = None, startedAt = int n,
      failed = (n = 5), duration = 1\<rparr>"

definition exTwelve :: "CompletedToolEntry list" where
  "exTwelve =
     [exCompleted 1, exCompleted 2, exCompleted 3, exCompleted 4, exCompleted 5,
      exCompleted 6, exCompleted 7, exCompleted 8, exCompleted 9, exCompleted 10,
      exCompleted 11, exCompleted 12]"

text \<open>
  A call of the tool \<open>Read\<close> with two arguments, of which \<open>path\<close> is the
  second, and two active tools, started under the identifiers \<open>b\<close> and \<open>a\<close> in
  this order.
\<close>

definition exRead :: ToolEntry where
  "exRead =
     \<lparr>name = ascii ''Read'',
      args = Some [(ascii ''limit'', JOther), (ascii ''path'', JString (ascii '' /tmp/a<b ''))],
      startedAt = 13\<rparr>"

definition exActive :: "(jsstring \<times> ToolEntry) list" where
  "exActive = [(ascii ''b'', exRead), (ascii ''a'', exEntry 14)]"

text \<open>
  The lines of the tool section for the twelve completed and the two active tools.
\<close>

definition exToolLines :: "jsstring list" where
  "exToolLines =
     [CHECK_MARK @ ascii '' <code>tool3</code>'',
      CHECK_MARK @ ascii '' <code>tool4</code>'',
      CROSS_MARK @ ascii '' <code>tool5</code>'',
      CHECK_MARK @ ascii '' <code>tool6</code>'',
      CHECK_MARK @ ascii '' <code>tool7</code>'',
      CHECK_MARK @ ascii '' <code>tool8</code>'',
      CHECK_MARK @ ascii '' <code>tool9</code>'',
      CHECK_MARK @ ascii '' <code>tool10</code>'',
      CHECK_MARK @ ascii '' <code>tool11</code>'',
      CHECK_MARK @ ascii '' <code>tool12</code>'',
      HOURGLASS @ ascii '' <code>Read</code> /tmp/a&lt;b'',
      HOURGLASS @ ascii '' <code>tool14</code>'']"

text \<open>
  Thirty active tools, started under the identifiers \<open>1\<close> to \<open>30\<close>, each with a
  name of 160 letters and no arguments, and the line that renders one of them.
\<close>

definition exLongEntry :: ToolEntry where
  "exLongEntry = \<lparr>name = replicate 160 0x61, args = None, startedAt = 0\<rparr>"

definition exThirty :: "(jsstring \<times> ToolEntry) list" where
  "exThirty = map (\<lambda>n. (decimal n, exLongEntry)) [1..<31]"

definition exLongLine :: jsstring where
  "exLongLine = HOURGLASS @ ascii '' <code>'' @ replicate 160 0x61 @ ascii ''</code>''"

text \<open>
  An active tool started at time 1000 with an empty argument object, whose name, once
  lowered, is the name of a member that the table inherits.
\<close>

definition exInherited :: "(jsstring \<times> ToolEntry) list" where
  "exInherited =
     [(ascii ''t1'', \<lparr>name = ascii ''Constructor'', args = Some [], startedAt = 1000\<rparr>)]"

text \<open>
  The states of a session in which \<open>update("a")\<close> is called at time 1000 and the
  first call of \<open>sendMessage\<close> either fails or resolves with the identifier 7.
\<close>

definition exMsgA :: jsstring where
  "exMsgA =
     BRAIN @ ascii '' <b>Thinking</b>'' @ [10, 10] @ ascii ''<blockquote>a</blockquote>''"

definition exMsgB :: jsstring where
  "exMsgB =
     BRAIN @ ascii '' <b>Thinking</b>'' @ [10, 10] @ ascii ''<blockquote>b</blockquote>''"

definition exSending :: state where
  "exSending =
     \<lparr>messageId = None, thinkingText = Some (ascii ''a''), activeTools = [],
      completedTools = [], lastSentContent = exMsgA, lastSentAt = 1000, timer = None,
      inFlight = True, stopped = False, pendingUpdate = False,
      frames = [AwaitTransport (SendMessage exMsgA)], calls = [(1000, SendMessage exMsgA)],
      delivered = [], logged = [], uncaught = [], renderErrors = [], clock = 1000\<rparr>"

definition exFailed :: state where
  "exFailed =
     exSending\<lparr>frames := [AwaitSendOrEdit None],
       logged := [failureLine (ascii ''send'') (ascii ''boom'')], clock := 1200\<rparr>"

definition exFailedIdle :: state where
  "exFailedIdle = exFailed\<lparr>inFlight := False, frames := []\<rparr>"

definition exDelivered :: state where
  "exDelivered =
     exSending\<lparr>messageId := Some 7, inFlight := False, frames := [],
       delivered := [exMsgA], clock := 1200\<rparr>"

definition exArmed :: state where
  "exArmed = exDelivered\<lparr>thinkingText := Some (ascii ''b''), timer := Some 1800, clock := 1300\<rparr>"

definition exStale :: state where
  "exStale =
     \<lparr>messageId = Some 7, thinkingText = Some (ascii ''a''), activeTools = [],
      completedTools = [], lastSentContent = exMsgB, lastSentAt = 2000, timer = Some 2800,
      inFlight = False, stopped = False, pendingUpdate = False,
      frames = [], calls = [(1000, SendMessage exMsgA), (2000, EditMessageText 7 exMsgB)],
      delivered = [exMsgA], logged = [failureLine (ascii ''edit'') (ascii ''boom'')],
      uncaught = [], renderErrors = [], clock = 2300\<rparr>"

text \<open>A configuration with an update interval of 3000000000 milliseconds.\<close>

definition exSlowParams :: params where
  "exSlowParams = \<lparr>thinkingConfig = \<lparr>updateInterval = Some 3000000000, maxLength = None\<rparr>,
                   toolDisplay = exDisplay\<rparr>"

definition exOneTool :: state where
  "exOneTool = createThinkingUpdater\<lparr>activeTools := [(ascii ''t1'', exEntry 1)]\<rparr>"

definition exWaiting :: state where
  "exWaiting = createThinkingUpdater\<lparr>timer := Some 800, clock := 100\<rparr>"

section \<open>Properties of the renderer\<close>

lemma length_replaceAll_ge: "rep \<noteq> [] \<Longrightarrow> length s \<le> length (replaceAll c rep s)"
  unfolding replaceAll_def
proof (induction s)
  case Nil
  then show ?case by simp
next
  case (Cons x xs)
  then have "1 \<le> length rep" by (cases rep) simp_all
  with Cons show ?case by simp
qed

lemma length_escapeHtml_ge: "length s \<le> length (escapeHtml s)"
proof -
  have a: "length s \<le> length (replaceAll 0x26 (ascii ''&amp;'') s)"
    by (rule length_replaceAll_ge) (simp add: ascii_def)
  have b: "length (replaceAll 0x26 (ascii ''&amp;'') s)
             \<le> length (replaceAll 0x3C (ascii ''&lt;'') (replaceAll 0x26 (ascii ''&amp;'') s))"
    by (rule length_replaceAll_ge) (simp add: ascii_def)
  have c: "length (replaceAll 0x3C (ascii ''&lt;'') (replaceAll 0x26 (ascii ''&amp;'') s))
             \<le> length (escapeHtml s)"
    unfolding escapeHtml_def by (rule length_replaceAll_ge) (simp add: ascii_def)
  from a b c show ?thesis by linarith
qed

lemma replaceAll_absent: "c \<notin> set s \<Longrightarrow> replaceAll c rep s = s"
  unfolding replaceAll_def by (induction s) auto

lemma escapeHtml_letters: "escapeHtml (replicate n 0x61) = replicate n 0x61"
  by (simp add: escapeHtml_def replaceAll_absent)

lemma js_slice_prefix: "0 \<le> n \<Longrightarrow> js_slice xs 0 n = take (nat n) xs"
  by (auto simp: js_slice_def Let_def min_def)

lemma js_slice_from_neg:
  "0 < n \<Longrightarrow> js_slice_from xs (- n) = drop (length xs - nat n) xs"
  by (auto simp: js_slice_from_def js_slice_def Let_def max_def nat_diff_distrib' nat_add_distrib)

lemma js_slice_from_zero: "js_slice_from xs 0 = xs"
  by (simp add: js_slice_from_def js_slice_def)

lemma capResult_length: "length (capResult r) \<le> 4096"
  by (simp add: capResult_def js_slice_prefix ELLIPSIS_def)

lemma capResult_long: "4096 < length r \<Longrightarrow> capResult r = take 4093 r @ ELLIPSIS"
  by (simp add: capResult_def js_slice_prefix)

lemma capResult_eq:
  "capResult r = (if 4096 < length r then take 4093 r @ ELLIPSIS else r)"
  by (simp add: capResult_def js_slice_prefix)

subsection \<open>The lines of the tool section\<close>

text \<open>
  The line of a tool, whichever branch of the conditional builds it: the icon, the
  escaped name between the \<open>code\<close> tags and, when the argument string is not empty,
  a space and the escaped argument string.
\<close>

lemma toolLine_eq:
  "toolLine icon nm a =
     icon @ ascii '' <code>'' @ escapeHtml nm @ ascii ''</code>''
       @ (if a = [] then [] else ascii '' '' @ escapeHtml a)"
  by (simp add: toolLine_def ascii_def)

lemma completedLine_eq:
  "argStrOf td (name c) (args c) = Inr a \<Longrightarrow>
     completedLine td c =
       Inr ((if failed c then CROSS_MARK else CHECK_MARK) @ ascii '' <code>''
              @ escapeHtml (name c) @ ascii ''</code>''
              @ (if a = [] then [] else ascii '' '' @ escapeHtml a))"
  by (simp add: completedLine_def toolLine_eq)

lemma activeLine_eq:
  "argStrOf td (name e) (args e) = Inr a \<Longrightarrow>
     activeLine td e =
       Inr (HOURGLASS @ ascii '' <code>'' @ escapeHtml (name e) @ ascii ''</code>''
              @ (if a = [] then [] else ascii '' '' @ escapeHtml a))"
  by (simp add: activeLine_def toolLine_eq)

lemma lines_of_args:
  assumes "map f xs = map Inr as" and "\<And>x a. f x = Inr a \<Longrightarrow> g x = Inr (h x a)"
  shows "map g xs = map Inr (map2 h xs as)"
  using assms(1)
proof (induction xs arbitrary: as)
  case Nil
  then show ?case by simp
next
  case (Cons x xs)
  from Cons.prems obtain a as1 where as: "as = a # as1"
    by (cases as) simp_all
  with Cons.prems have hd: "f x = Inr a" and tl: "map f xs = map Inr as1"
    by simp_all
  from hd have "g x = Inr (h x a)"
    by (rule assms(2))
  with Cons.IH [OF tl] as show ?case
    by simp
qed

lemma pushCompleted_lines:
  "map (completedLine td) cs = map Inr ls \<Longrightarrow> pushCompleted td cs parts = Inr (parts @ ls)"
proof (induction cs arbitrary: parts ls)
  case Nil
  then show ?case by simp
next
  case (Cons c cs)
  from Cons.prems obtain l ls1 where ls: "ls = l # ls1"
    by (cases ls) simp_all
  with Cons.prems have hd: "completedLine td c = Inr l"
    and tl: "map (completedLine td) cs = map Inr ls1"
    by simp_all
  from Cons.IH [OF tl, of "parts @ [l]"] hd ls show ?case
    by simp
qed

lemma pushActive_lines:
  "map (activeLine td) (map snd as) = map Inr ls \<Longrightarrow>
     pushActive td as parts = Inr (parts @ ls)"
proof (induction as arbitrary: parts ls)
  case Nil
  then show ?case by simp
next
  case (Cons x as)
  obtain tid e where x: "x = (tid, e)"
    by (cases x)
  from Cons.prems obtain l ls1 where ls: "ls = l # ls1"
    by (cases ls) simp_all
  with Cons.prems x have hd: "activeLine td e = Inr l"
    and tl: "map (activeLine td) (map snd as) = map Inr ls1"
    by simp_all
  from Cons.IH [OF tl, of "parts @ [l]"] hd ls x show ?case
    by simp
qed

text \<open>A line that cannot be built ends the loop, and the renderer, with the exception.\<close>

lemma pushCompleted_throws:
  "c \<in> set cs \<Longrightarrow> completedLine td c = Inl TypeError \<Longrightarrow>
     pushCompleted td cs parts = Inl TypeError"
proof (induction cs arbitrary: parts)
  case Nil
  then show ?case by simp
next
  case (Cons x cs)
  show ?case
  proof (cases "completedLine td x")
    case (Inl err)
    then show ?thesis by (cases err) simp
  next
    case (Inr l)
    with Cons.prems have "c \<in> set cs" by auto
    from Cons.IH [OF this Cons.prems(2)] Inr show ?thesis by simp
  qed
qed

lemma pushActive_throws:
  "e \<in> snd ` set as \<Longrightarrow> activeLine td e = Inl TypeError \<Longrightarrow>
     pushActive td as parts = Inl TypeError"
proof (induction as arbitrary: parts)
  case Nil
  then show ?case by simp
next
  case (Cons x as)
  obtain tid e1 where x: "x = (tid, e1)"
    by (cases x)
  show ?case
  proof (cases "activeLine td e1")
    case (Inl err)
    with x show ?thesis by (cases err) simp
  next
    case (Inr l)
    with Cons.prems x have "e \<in> snd ` set as" by auto
    from Cons.IH [OF this Cons.prems(2)] Inr x show ?thesis by simp
  qed
qed

lemma toolParts_shape:
  assumes "enabled td \<noteq> Some False" and "0 < length as \<or> 0 < length cs"
    and "map (completedLine td) (drop (length cs - 10) cs) = map Inr cl"
    and "map (activeLine td) (map snd as) = map Inr al"
  shows "toolParts as cs td parts =
           Inr (parts @ (if parts = [] then [] else [[]]) @ cl @ al)"
proof -
  have shown: "js_slice_from cs (- 10) = drop (length cs - 10) cs"
    using js_slice_from_neg [of 10 cs] by simp
  let ?parts1 = "if 0 < length parts then parts @ [[]] else parts"
  have c: "pushCompleted td (js_slice_from cs (- 10)) ?parts1 = Inr (?parts1 @ cl)"
    unfolding shown using assms(3) by (rule pushCompleted_lines)
  have a: "pushActive td as (?parts1 @ cl) = Inr ((?parts1 @ cl) @ al)"
    using assms(4) by (rule pushActive_lines)
  from assms(1,2) c a show ?thesis
    by (simp add: toolParts_def Let_def)
qed

lemma argStrOf_none: "argStrOf td nm None = Inr []"
  by (simp add: argStrOf_def extractToolArgs_def)

lemma buildParts_nonempty:
  "toolParts as cs td (thinkingParts t m) = Inr ps \<Longrightarrow> ps \<noteq> [] \<Longrightarrow>
     buildParts t as cs td m = Inr ps"
  by (simp add: buildParts_def)

text \<open>
  C7, amended. With tool display enabled, and when the argument string of every entry
  to show can be built (it is empty when arguments are not shown, and what
  \<open>extractToolArgs\<close> returns with the configured length, or 150, otherwise),
  \<open>buildMessage\<close> pushes the thinking block, an empty separator
  line when that block is there, one line for each of the last ten completed entries in
  their order of completion (the oldest of the ten first), marked with the cross when
  the entry failed and with the check mark otherwise, and then one line for each active
  entry in the insertion order of the map, marked with the hourglass. However many
  entries have completed, the completed lines number ten at most. With no tool at all
  there is no tool section. The composition is these lines joined by line feeds; the
  text returned is the composition when that is at most 4096 code units long, and its
  first 4093 code units followed by the ellipsis otherwise.
\<close>

theorem tool_section_last_ten:
  assumes "enabled td \<noteq> Some False"
    and "map (\<lambda>c. if showArgs td \<noteq> Some False
                   then extractToolArgs (name c) (args c)
                          (case maxArgsLength td of Some n \<Rightarrow> n | None \<Rightarrow> 150)
                   else Inr [])
           (drop (length cs - 10) cs) = map Inr cargs"
    and "map (\<lambda>e. if showArgs td \<noteq> Some False
                   then extractToolArgs (name e) (args e)
                          (case maxArgsLength td of Some n \<Rightarrow> n | None \<Rightarrow> 150)
                   else Inr [])
           (map snd as) = map Inr aargs"
  shows "\<exists>clines alines parts.
           clines =
             map2 (\<lambda>c a. (if failed c then CROSS_MARK else CHECK_MARK) @ ascii '' <code>''
                           @ escapeHtml (name c) @ ascii ''</code>''
                           @ (if a = [] then [] else ascii '' '' @ escapeHtml a))
               (drop (length cs - 10) cs) cargs
         \<and> alines =
             map2 (\<lambda>e a. HOURGLASS @ ascii '' <code>'' @ escapeHtml (name e) @ ascii ''</code>''
                           @ (if a = [] then [] else ascii '' '' @ escapeHtml a))
               (map snd as) aargs
         \<and> length clines = min 10 (length cs)
         \<and> length alines = length as
         \<and> parts =
             (if as = [] \<and> cs = []
              then (if thinkingParts t m = []
                    then [BRAIN @ ascii '' <b>Thinking'' @ ELLIPSIS @ ascii ''</b>'']
                    else thinkingParts t m)
              else thinkingParts t m @ (if thinkingParts t m = [] then [] else [[]])
                     @ clines @ alines)
         \<and> buildParts t as cs td m = Inr parts
         \<and> composed t as cs td m = Inr (js_join (ascii [CHR 0x0A]) parts)
         \<and> buildMessage t as cs td m =
             Inr (if 4096 < length (js_join (ascii [CHR 0x0A]) parts)
                  then take 4093 (js_join (ascii [CHR 0x0A]) parts) @ ELLIPSIS
                  else js_join (ascii [CHR 0x0A]) parts)"
proof -
  let ?shown = "drop (length cs - 10) cs"
  let ?cline = "\<lambda>c a. (if failed c then CROSS_MARK else CHECK_MARK) @ ascii '' <code>''
                   @ escapeHtml (name c) @ ascii ''</code>''
                   @ (if a = [] then [] else ascii '' '' @ escapeHtml a)"
  let ?aline = "\<lambda>e a. HOURGLASS @ ascii '' <code>'' @ escapeHtml (name e) @ ascii ''</code>''
                   @ (if a = [] then [] else ascii '' '' @ escapeHtml a)"
  let ?clines = "map2 ?cline ?shown cargs"
  let ?alines = "map2 ?aline (map snd as) aargs"
  let ?parts = "if as = [] \<and> cs = []
                then (if thinkingParts t m = []
                      then [BRAIN @ ascii '' <b>Thinking'' @ ELLIPSIS @ ascii ''</b>'']
                      else thinkingParts t m)
                else thinkingParts t m @ (if thinkingParts t m = [] then [] else [[]])
                       @ ?clines @ ?alines"
  have cargs: "map (\<lambda>c. argStrOf td (name c) (args c)) ?shown = map Inr cargs"
    using assms(2) by (simp add: argStrOf_def)
  have aargs: "map (\<lambda>e. argStrOf td (name e) (args e)) (map snd as) = map Inr aargs"
    using assms(3) by (simp add: argStrOf_def)
  have cl: "map (completedLine td) ?shown = map Inr ?clines"
    using cargs by (rule lines_of_args) (rule completedLine_eq)
  have al: "map (activeLine td) (map snd as) = map Inr ?alines"
    using aargs by (rule lines_of_args) (rule activeLine_eq)
  from assms(2) have "length ?shown = length cargs"
    by (rule map_eq_imp_length_eq)
  then have n1: "length ?clines = min 10 (length cs)"
    by simp
  from assms(3) have "length (map snd as) = length aargs"
    by (rule map_eq_imp_length_eq)
  then have n2: "length ?alines = length as"
    by simp
  have parts: "buildParts t as cs td m = Inr ?parts"
  proof (cases "as = [] \<and> cs = []")
    case True
    then show ?thesis
      by (simp add: buildParts_def toolParts_def Let_def)
  next
    case False
    then have some: "0 < length as \<or> 0 < length cs"
      by auto
    have shape: "toolParts as cs td (thinkingParts t m) =
                   Inr (thinkingParts t m @ (if thinkingParts t m = [] then [] else [[]])
                          @ ?clines @ ?alines)"
      using assms(1) some cl al by (rule toolParts_shape)
    from False n1 n2 have "?clines \<noteq> [] \<or> ?alines \<noteq> []"
      by (cases cs) auto
    then have "thinkingParts t m @ (if thinkingParts t m = [] then [] else [[]])
                 @ ?clines @ ?alines \<noteq> []"
      by auto
    with shape have "buildParts t as cs td m =
                   Inr (thinkingParts t m @ (if thinkingParts t m = [] then [] else [[]])
                          @ ?clines @ ?alines)"
      by (rule buildParts_nonempty)
    with False show ?thesis
      by simp
  qed
  from parts have comp: "composed t as cs td m = Inr (js_join (ascii [CHR 0x0A]) ?parts)"
    by (simp add: composed_def)
  from comp have msg: "buildMessage t as cs td m =
             Inr (if 4096 < length (js_join (ascii [CHR 0x0A]) ?parts)
                  then take 4093 (js_join (ascii [CHR 0x0A]) ?parts) @ ELLIPSIS
                  else js_join (ascii [CHR 0x0A]) ?parts)"
    by (simp add: buildMessage_def capResult_eq)
  from n1 n2 parts comp msg show ?thesis
    by blast
qed

text \<open>
  C7 with twelve completed tools and two active ones: the first two completed
  entries have no line, the fifth, which failed, has the cross, and the active entries
  follow in the order in which they were started. The tool \<open>Read\<close> shows its path,
  trimmed and escaped.
\<close>

lemma exTwelve_shown:
  "drop (length exTwelve - 10) exTwelve =
     [exCompleted 3, exCompleted 4, exCompleted 5, exCompleted 6, exCompleted 7,
      exCompleted 8, exCompleted 9, exCompleted 10, exCompleted 11, exCompleted 12]"
  by (simp add: exTwelve_def)

lemma decimal_small: "n < 10 \<Longrightarrow> decimal n = [0x30 + n]"
  by simp

lemma decimal_two:
  "10 \<le> n \<Longrightarrow> n < 100 \<Longrightarrow> decimal n = [0x30 + n div 10, 0x30 + n mod 10]"
  by (subst decimal.simps) simp

lemma argStrOf_exRead:
  "argStrOf exDisplay (name exRead) (args exRead) = Inr (ascii ''/tmp/a<b'')"
  by (simp add: argStrOf_def extractToolArgs_def exDisplay_def exRead_def tableMember_def
      TOOL_ARG_EXTRACTORS_def toLowerCase_def ascii_def clipArg_def trim_def isWhiteSpace_def
      Let_def)

lemma exToolLines_short: "\<not> 4096 < length (js_join (ascii [CHR 0x0A]) exToolLines)"
  by (simp add: exToolLines_def ascii_def CHECK_MARK_def CROSS_MARK_def HOURGLASS_def)

theorem tool_section_last_ten_witness:
  "enabled exDisplay \<noteq> Some False
   \<and> buildParts None exActive exTwelve exDisplay 3800 = Inr exToolLines
   \<and> buildMessage None exActive exTwelve exDisplay 3800 =
       Inr (js_join (ascii [CHR 0x0A]) exToolLines)"
proof -
  have h: "enabled exDisplay \<noteq> Some False"
    by (simp add: exDisplay_def)
  have "map (\<lambda>c. argStrOf exDisplay (name c) (args c))
          (drop (length exTwelve - 10) exTwelve)
        = map Inr [[], [], [], [], [], [], [], [], [], []]"
    by (simp add: exTwelve_shown exCompleted_def argStrOf_none)
  then have hc: "map (\<lambda>c. if showArgs exDisplay \<noteq> Some False
                         then extractToolArgs (name c) (args c)
                                (case maxArgsLength exDisplay of
                                   Some n \<Rightarrow> n | None \<Rightarrow> 150)
                         else Inr [])
                   (drop (length exTwelve - 10) exTwelve)
                 = map Inr [[], [], [], [], [], [], [], [], [], []]"
    by (simp add: argStrOf_def)
  have "map (\<lambda>e. argStrOf exDisplay (name e) (args e)) (map snd exActive)
        = map Inr [ascii ''/tmp/a<b'', []]"
    by (simp add: exActive_def argStrOf_exRead exEntry_def argStrOf_none)
  then have ha: "map (\<lambda>e. if showArgs exDisplay \<noteq> Some False
                         then extractToolArgs (name e) (args e)
                                (case maxArgsLength exDisplay of
                                   Some n \<Rightarrow> n | None \<Rightarrow> 150)
                         else Inr [])
                   (map snd exActive)
                 = map Inr [ascii ''/tmp/a<b'', []]"
    by (simp add: argStrOf_def)
  have th: "thinkingParts None 3800 = []"
    by (simp add: thinkingParts_def)
  from tool_section_last_ten [OF h hc ha, of None 3800] obtain parts where
    parts: "parts =
      (if exActive = [] \<and> exTwelve = []
       then (if thinkingParts None 3800 = []
             then [BRAIN @ ascii '' <b>Thinking'' @ ELLIPSIS @ ascii ''</b>'']
             else thinkingParts None 3800)
       else thinkingParts None 3800 @ (if thinkingParts None 3800 = [] then [] else [[]])
              @ map2 (\<lambda>c a. (if failed c then CROSS_MARK else CHECK_MARK) @ ascii '' <code>''
                            @ escapeHtml (name c) @ ascii ''</code>''
                            @ (if a = [] then [] else ascii '' '' @ escapeHtml a))
                  (drop (length exTwelve - 10) exTwelve) [[], [], [], [], [], [], [], [], [], []]
              @ map2 (\<lambda>e a. HOURGLASS @ ascii '' <code>'' @ escapeHtml (name e)
                            @ ascii ''</code>''
                            @ (if a = [] then [] else ascii '' '' @ escapeHtml a))
                  (map snd exActive) [ascii ''/tmp/a<b'', []])"
    and bp: "buildParts None exActive exTwelve exDisplay 3800 = Inr parts"
    and bm: "buildMessage None exActive exTwelve exDisplay 3800 =
               Inr (if 4096 < length (js_join (ascii [CHR 0x0A]) parts)
                    then take 4093 (js_join (ascii [CHR 0x0A]) parts) @ ELLIPSIS
                    else js_join (ascii [CHR 0x0A]) parts)"
    by blast
  from parts have "parts = exToolLines"
    by (simp add: th exTwelve_shown exActive_def exCompleted_def exEntry_def exRead_def
        exToolLines_def decimal_small decimal_two escapeHtml_def replaceAll_def ascii_def
        del: decimal.simps)
  with bp bm exToolLines_short h show ?thesis
    by simp
qed

text \<open>
  The claim as it was made, on the text that is returned: with thirty active tools whose
  lines are 175 code units long, the composition has 5279 code units, and the text
  returned holds the first 23 lines, the first 45 code units of the 24th and the
  ellipsis. The last six active tools are not in it.
\<close>

lemma js_join_replicate:
  "js_join sep (replicate (n + Suc k) l) =
     concat (replicate n (l @ sep)) @ js_join sep (replicate (Suc k) l)"
  by (induction n) simp_all

lemma length_concat_replicate: "length (concat (replicate n xs)) = n * length xs"
  by (induction n) simp_all

lemma length_js_join_replicate:
  "length (js_join sep (replicate (Suc k) l)) = Suc k * length l + k * length sep"
  by (induction k) simp_all

lemma exLongLine_length: "length exLongLine = 175"
  by (simp add: exLongLine_def HOURGLASS_def ascii_def)

lemma exThirty_entries: "map snd exThirty = replicate 30 exLongEntry"
proof -
  have "map snd exThirty = map (\<lambda>n. exLongEntry) [1..<31]"
    by (simp add: exThirty_def comp_def)
  also have "\<dots> = replicate (length [1..<31]) exLongEntry"
    by (rule map_replicate_const)
  finally show ?thesis
    by simp
qed

lemma exThirty_lines:
  "map (activeLine exDisplay) (map snd exThirty) = map Inr (replicate 30 exLongLine)"
  by (simp add: exThirty_entries activeLine_def exLongEntry_def argStrOf_none toolLine_def
      escapeHtml_letters exLongLine_def)

lemma exThirty_parts:
  "buildParts None exThirty [] exDisplay 3800 = Inr (replicate 30 exLongLine)"
proof -
  have ne: "exThirty \<noteq> []"
    by (simp add: exThirty_def upt_conv_Cons)
  have "pushActive exDisplay exThirty [] = Inr ([] @ replicate 30 exLongLine)"
    using exThirty_lines by (rule pushActive_lines)
  with ne have "toolParts exThirty [] exDisplay (thinkingParts None 3800)
                  = Inr (replicate 30 exLongLine)"
    by (simp add: toolParts_def thinkingParts_def exDisplay_def js_slice_from_def js_slice_def)
  then show ?thesis
    by (rule buildParts_nonempty) simp
qed

theorem active_tools_cut_by_cap:
  "enabled exDisplay \<noteq> Some False
   \<and> length exThirty = 30
   \<and> composed None exThirty [] exDisplay 3800
       = Inr (js_join (ascii [CHR 0x0A]) (replicate 30 exLongLine))
   \<and> length (js_join (ascii [CHR 0x0A]) (replicate 30 exLongLine)) = 5279
   \<and> buildMessage None exThirty [] exDisplay 3800
       = Inr (concat (replicate 23 (exLongLine @ ascii [CHR 0x0A])) @ take 45 exLongLine
              @ ELLIPSIS)"
proof -
  let ?nl = "ascii [CHR 0x0A]"
  let ?c = "js_join ?nl (replicate 30 exLongLine)"
  have h: "enabled exDisplay \<noteq> Some False"
    by (simp add: exDisplay_def)
  have n: "length exThirty = 30"
    by (simp add: exThirty_def)
  have c: "composed None exThirty [] exDisplay 3800 = Inr ?c"
    by (simp add: composed_def exThirty_parts)
  have len: "length ?c = 5279"
    using length_js_join_replicate [of ?nl 29 exLongLine]
    by (simp add: exLongLine_length ascii_def)
  have split: "?c = concat (replicate 23 (exLongLine @ ?nl))
                      @ js_join ?nl (replicate 7 exLongLine)"
    using js_join_replicate [of ?nl 23 6 exLongLine] by simp
  have front: "length (concat (replicate 23 (exLongLine @ ?nl))) = 4048"
    by (simp add: length_concat_replicate exLongLine_length ascii_def)
  have rest: "js_join ?nl (replicate 7 exLongLine)
                = exLongLine @ ?nl @ js_join ?nl (replicate 6 exLongLine)"
    by (simp add: numeral_eq_Suc)
  have "take 4093 ?c = concat (replicate 23 (exLongLine @ ?nl)) @ take 45 exLongLine"
    unfolding split rest using front by (simp add: exLongLine_length)
  with c len have "buildMessage None exThirty [] exDisplay 3800
       = Inr (concat (replicate 23 (exLongLine @ ?nl)) @ take 45 exLongLine @ ELLIPSIS)"
    by (simp add: buildMessage_def capResult_long)
  with h n c len show ?thesis
    by blast
qed

subsection \<open>When the renderer throws\<close>

text \<open>
  The argument string of an entry cannot be built exactly when arguments are shown, the
  entry has an argument object, and its lowered name is one of the two inherited
  members. One such entry among those to show is enough for \<open>buildMessage\<close> to
  throw.
\<close>

lemma inherited_not_own:
  assumes "key \<in> set INHERITED_MEMBERS"
  shows "map_of TOOL_ARG_EXTRACTORS key = None"
proof -
  from assms have "key = ascii ''constructor'' \<or> key = ascii ''__proto__''"
    by (simp add: INHERITED_MEMBERS_def)
  then show ?thesis
  proof
    assume "key = ascii ''constructor''"
    then show ?thesis
      by (simp add: TOOL_ARG_EXTRACTORS_def ascii_def)
  next
    assume "key = ascii ''__proto__''"
    then show ?thesis
      by (simp add: TOOL_ARG_EXTRACTORS_def ascii_def)
  qed
qed

lemma tableMember_inherited:
  "tableMember key = Some NotIterable \<longleftrightarrow> key \<in> set INHERITED_MEMBERS"
proof
  assume a: "tableMember key = Some NotIterable"
  show "key \<in> set INHERITED_MEMBERS"
  proof (cases "map_of TOOL_ARG_EXTRACTORS key")
    case None
    with a show ?thesis
      by (simp add: tableMember_def split: if_splits)
  next
    case (Some keys)
    with a show ?thesis
      by (simp add: tableMember_def)
  qed
next
  assume a: "key \<in> set INHERITED_MEMBERS"
  with inherited_not_own [OF a] show "tableMember key = Some NotIterable"
    by (simp add: tableMember_def)
qed

lemma extractToolArgs_throws_iff:
  "extractToolArgs nm as maxLen = Inl TypeError
     \<longleftrightarrow> as \<noteq> None \<and> toLowerCase nm \<in> set INHERITED_MEMBERS"
proof (cases as)
  case None
  then show ?thesis
    by (simp add: extractToolArgs_def)
next
  case (Some rec)
  show ?thesis
  proof (cases "tableMember (toLowerCase nm)")
    case None
    with Some tableMember_inherited [of "toLowerCase nm"] show ?thesis
      by (simp add: extractToolArgs_def)
  next
    case (Some mem)
    note mem = this
    show ?thesis
    proof (cases mem)
      case (KeyList keys)
      with mem \<open>as = Some rec\<close> tableMember_inherited [of "toLowerCase nm"] show ?thesis
        by (simp add: extractToolArgs_def split: option.split)
    next
      case NotIterable
      with mem \<open>as = Some rec\<close> tableMember_inherited [of "toLowerCase nm"] show ?thesis
        by (simp add: extractToolArgs_def)
    qed
  qed
qed

lemma argStrOf_throws_iff:
  "argStrOf td nm as = Inl TypeError
     \<longleftrightarrow> showArgs td \<noteq> Some False \<and> as \<noteq> None \<and> toLowerCase nm \<in> set INHERITED_MEMBERS"
  by (simp add: argStrOf_def extractToolArgs_throws_iff)

lemma completedLine_throws:
  "argStrOf td (name c) (args c) = Inl TypeError \<Longrightarrow> completedLine td c = Inl TypeError"
  by (simp add: completedLine_def)

lemma activeLine_throws:
  "argStrOf td (name e) (args e) = Inl TypeError \<Longrightarrow> activeLine td e = Inl TypeError"
  by (simp add: activeLine_def)

lemma tool_section_throws:
  assumes "enabled td \<noteq> Some False"
    and "(\<exists>c \<in> set (drop (length cs - 10) cs). argStrOf td (name c) (args c) = Inl TypeError)
         \<or> (\<exists>e \<in> snd ` set as. argStrOf td (name e) (args e) = Inl TypeError)"
  shows "buildMessage t as cs td m = Inl TypeError"
proof -
  have shown: "js_slice_from cs (- 10) = drop (length cs - 10) cs"
    using js_slice_from_neg [of 10 cs] by simp
  from assms(2) have some: "0 < length as \<or> 0 < length cs"
    by (cases cs; cases as) auto
  let ?parts1 = "if 0 < length (thinkingParts t m) then thinkingParts t m @ [[]]
                 else thinkingParts t m"
  have "(case pushCompleted td (drop (length cs - 10) cs) ?parts1 of
           Inl err \<Rightarrow> Inl err
         | Inr parts2 \<Rightarrow> pushActive td as parts2) = Inl TypeError"
  proof (cases "pushCompleted td (drop (length cs - 10) cs) ?parts1")
    case (Inl err)
    then show ?thesis by (cases err) simp
  next
    case (Inr parts2)
    have "\<not> (\<exists>c \<in> set (drop (length cs - 10) cs). argStrOf td (name c) (args c) = Inl TypeError)"
    proof
      assume "\<exists>c \<in> set (drop (length cs - 10) cs). argStrOf td (name c) (args c) = Inl TypeError"
      then obtain c where "c \<in> set (drop (length cs - 10) cs)"
        and "completedLine td c = Inl TypeError"
        using completedLine_throws by blast
      then have "pushCompleted td (drop (length cs - 10) cs) ?parts1 = Inl TypeError"
        by (rule pushCompleted_throws)
      with Inr show False by simp
    qed
    with assms(2) obtain e where "e \<in> snd ` set as" and "activeLine td e = Inl TypeError"
      using activeLine_throws by blast
    then have "pushActive td as parts2 = Inl TypeError"
      by (rule pushActive_throws)
    with Inr show ?thesis by simp
  qed
  with assms(1) some have "toolParts as cs td (thinkingParts t m) = Inl TypeError"
    by (simp add: toolParts_def shown Let_def)
  then show ?thesis
    by (simp add: buildMessage_def composed_def buildParts_def)
qed

text \<open>
  A tool started as \<open>Constructor\<close> with an empty argument object: the table gives
  the inherited member, the loop over it throws, and \<open>buildMessage\<close> returns no
  text.
\<close>

lemma render_throws_on_inherited_name:
  "buildMessage None exInherited [] exDisplay 3800 = Inl TypeError"
  by (simp add: buildMessage_def composed_def buildParts_def toolParts_def thinkingParts_def
      exInherited_def exDisplay_def js_slice_from_def js_slice_def activeLine_def argStrOf_def
      extractToolArgs_def tableMember_def TOOL_ARG_EXTRACTORS_def INHERITED_MEMBERS_def
      toLowerCase_def ascii_def)

text \<open>
  C9. The text \<open>buildMessage\<close> returns is never longer than 4096 code units, and
  when the joined parts are longer than 4096 it is their first 4093 code units
  followed by the ellipsis.
\<close>

theorem rendered_length_capped:
  "(\<forall>r. buildMessage t as cs td m = Inr r \<longrightarrow> length r \<le> 4096)
   \<and> (\<forall>c. composed t as cs td m = Inr c \<longrightarrow> 4096 < length c \<longrightarrow>
          buildMessage t as cs td m = Inr (take 4093 c @ ELLIPSIS))"
proof -
  have "length r \<le> 4096" if "buildMessage t as cs td m = Inr r" for r
  proof -
    from that obtain c where "r = capResult c"
      by (auto simp: buildMessage_def split: sum.splits)
    then show ?thesis
      by (simp add: capResult_length)
  qed
  moreover have "buildMessage t as cs td m = Inr (take 4093 c @ ELLIPSIS)"
    if "composed t as cs td m = Inr c" and "4096 < length c" for c
    using that by (simp add: buildMessage_def capResult_long)
  ultimately show ?thesis
    by blast
qed

text \<open>
  C9 on a thinking text of 5000 letters with \<open>maxLength = 6000\<close>: the composition
  is longer than 4096, and the text returned is the two heading lines, the opening tag,
  4061 of the letters and the ellipsis.
\<close>

theorem rendered_length_capped_witness:
  "composed (Some (replicate 5000 0x61)) [] [] exDisplay 6000 =
     Inr (BRAIN @ ascii '' <b>Thinking</b>'' @ [10, 10] @ ascii ''<blockquote>''
            @ replicate 5000 0x61 @ ascii ''</blockquote>'')
   \<and> 4096 < length (BRAIN @ ascii '' <b>Thinking</b>'' @ [10, 10] @ ascii ''<blockquote>''
            @ replicate 5000 0x61 @ ascii ''</blockquote>'')
   \<and> buildMessage (Some (replicate 5000 0x61)) [] [] exDisplay 6000 =
       Inr (BRAIN @ ascii '' <b>Thinking</b>'' @ [10, 10] @ ascii ''<blockquote>''
            @ replicate 4061 0x61 @ ELLIPSIS)
   \<and> length (BRAIN @ ascii '' <b>Thinking</b>'' @ [10, 10] @ ascii ''<blockquote>''
            @ replicate 4061 0x61 @ ELLIPSIS) = 4094"
proof -
  let ?c = "BRAIN @ ascii '' <b>Thinking</b>'' @ [10, 10] @ ascii ''<blockquote>''
            @ replicate 5000 0x61 @ ascii ''</blockquote>''"
  have ne: "replicate 5000 (0x61::nat) \<noteq> []"
    by simp
  have c: "composed (Some (replicate 5000 0x61)) [] [] exDisplay 6000 = Inr ?c"
    using ne
    by (simp add: composed_def buildParts_def toolParts_def thinkingParts_def
        trimThinking_def escapeHtml_letters ascii_def)
  have len: "4096 < length ?c"
    by (simp add: BRAIN_def ascii_def)
  have cut: "take 4093 ?c =
               BRAIN @ ascii '' <b>Thinking</b>'' @ [10, 10] @ ascii ''<blockquote>''
                 @ replicate 4061 0x61"
    by (simp add: BRAIN_def ascii_def)
  have l2: "length (BRAIN @ ascii '' <b>Thinking</b>'' @ [10, 10] @ ascii ''<blockquote>''
                      @ replicate 4061 0x61 @ ELLIPSIS) = 4094"
    by (simp add: BRAIN_def ascii_def ELLIPSIS_def)
  from rendered_length_capped [of "Some (replicate 5000 0x61)" "[]" "[]" exDisplay 6000] c len
  have "buildMessage (Some (replicate 5000 0x61)) [] [] exDisplay 6000
          = Inr (take 4093 ?c @ ELLIPSIS)"
    by blast
  with cut have "buildMessage (Some (replicate 5000 0x61)) [] [] exDisplay 6000 =
       Inr (BRAIN @ ascii '' <b>Thinking</b>'' @ [10, 10] @ ascii ''<blockquote>''
            @ replicate 4061 0x61 @ ELLIPSIS)"
    by simp
  with c len l2 show ?thesis
    by blast
qed

subsection \<open>The thinking text\<close>

text \<open>
  With \<open>maxLength\<close> above 200, a thinking text longer than \<open>maxLength - 200\<close>
  is cut to the ellipsis followed by its last \<open>maxLength - 200\<close> code units; a
  text of 5000 with the default 3800 keeps its last 3600. The third line of the
  thinking block is that text, escaped, between the \<open>blockquote\<close> tags.
\<close>

lemma thinking_tail_kept:
  assumes "200 < m" and "m - 200 < int (length t)"
  shows "trimThinking t m = ELLIPSIS @ drop (length t - nat (m - 200)) t
         \<and> length (drop (length t - nat (m - 200)) t) = nat (m - 200)"
proof -
  from assms(1) have "js_slice_from t (- (m - 200)) = drop (length t - nat (m - 200)) t"
    by (intro js_slice_from_neg) simp
  moreover have "length (drop (length t - nat (m - 200)) t) = nat (m - 200)"
    using assms by simp
  ultimately show ?thesis
    using assms(2) unfolding trimThinking_def by simp
qed

lemma thinking_5000_of_3800:
  assumes "length t = 5000"
  shows "trimThinking t 3800 = ELLIPSIS @ drop 1400 t \<and> length (drop 1400 t) = 3600"
  using assms thinking_tail_kept [of 3800 t] by simp

lemma thinkingParts_tail_kept:
  assumes "200 < m" and "m - 200 < int (length t)"
  shows "thinkingParts (Some t) m =
           [BRAIN @ ascii '' <b>Thinking</b>'', [],
            ascii ''<blockquote>'' @ escapeHtml (ELLIPSIS @ drop (length t - nat (m - 200)) t)
              @ ascii ''</blockquote>'']"
proof -
  from assms have "t \<noteq> []"
    by auto
  with thinking_tail_kept [OF assms] show ?thesis
    by (simp add: thinkingParts_def)
qed

lemma thinkingParts_5000_of_3800:
  assumes "length t = 5000"
  shows "thinkingParts (Some t) 3800 =
           [BRAIN @ ascii '' <b>Thinking</b>'', [],
            ascii ''<blockquote>'' @ escapeHtml (ELLIPSIS @ drop 1400 t)
              @ ascii ''</blockquote>'']"
  using assms thinkingParts_tail_kept [of 3800 t] by simp

text \<open>
  C8 at \<open>maxLength = 200\<close>. The text \<open>ab\<close> is longer than
  \<open>maxLength - 200 = 0\<close>, and \<open>slice(-0)\<close> returns the whole text: the block
  shows the ellipsis followed by \<open>ab\<close>, not by the trailing 0 code units.
\<close>

theorem thinking_budget_zero:
  "trimThinking (ascii ''ab'') 200 = ELLIPSIS @ ascii ''ab''
   \<and> thinkingParts (Some (ascii ''ab'')) 200 =
       [BRAIN @ ascii '' <b>Thinking</b>'', [],
        ascii ''<blockquote>'' @ ELLIPSIS @ ascii ''ab</blockquote>'']"
  by (simp add: trimThinking_def thinkingParts_def js_slice_from_zero ascii_def
      escapeHtml_def replaceAll_def ELLIPSIS_def)

section \<open>Properties of the updater\<close>

subsection \<open>The operations, case by case\<close>

lemma step_simps:
  "step p (now, Start) s = (if now < clock s then None else Some (start p now (s\<lparr>clock := now\<rparr>)))"
  "step p (now, Update text) s =
     (if now < clock s then None else Some (update p now text (s\<lparr>clock := now\<rparr>)))"
  "step p (now, Flush) s = (if now < clock s then None else Some (flush p now (s\<lparr>clock := now\<rparr>)))"
  "step p (now, Stop) s = (if now < clock s then None else Some (stop (s\<lparr>clock := now\<rparr>)))"
  "step p (now, Delete) s = (if now < clock s then None else Some (delete now (s\<lparr>clock := now\<rparr>)))"
  "step p (now, Collapse summary) s =
     (if now < clock s then None else Some (collapse now summary (s\<lparr>clock := now\<rparr>)))"
  "step p (now, ToolStart tid nm as) s =
     (if now < clock s then None else Some (toolStart p now tid nm as (s\<lparr>clock := now\<rparr>)))"
  "step p (now, ToolEnd tid fl) s =
     (if now < clock s then None else Some (toolEnd p now tid fl (s\<lparr>clock := now\<rparr>)))"
  "step p (now, TimerFire) s =
     (if now < clock s then None
      else case timer s of
             Some due \<Rightarrow> Some (timerCallback p now (s\<lparr>clock := now\<rparr>))
           | None \<Rightarrow> None)"
  "step p (now, Settle i out) s =
     (if now < clock s then None else settle i out (s\<lparr>clock := now\<rparr>))"
  "step p (now, Resume i) s =
     (if now < clock s then None else resume p now i (s\<lparr>clock := now\<rparr>))"
  by (simp_all add: step_def Let_def)

lemma clearTimer_eq: "clearTimer s = s\<lparr>timer := None\<rparr>"
  by (cases s) (simp add: clearTimer_def)

lemma schedule_eq:
  "schedule p now s =
     (if timer s \<noteq> None \<or> stopped s then s
      else s\<lparr>timer :=
             Some (now + setTimeoutDelay (max 0 (updateIntervalOf p - (now - lastSentAt s))))\<rparr>)"
  by (simp add: schedule_def Let_def)

lemma doFlush_stopped: "stopped s \<Longrightarrow> doFlush p now s = s"
  by (simp add: doFlush_def)

lemma doFlush_inFlight:
  "\<not> stopped s \<Longrightarrow> inFlight s \<Longrightarrow> doFlush p now s = s\<lparr>timer := None, pendingUpdate := True\<rparr>"
  by (cases s) (simp add: doFlush_def Let_def)

lemma doFlush_throws:
  "\<not> stopped s \<Longrightarrow> \<not> inFlight s \<Longrightarrow> rendered p s = Inl err \<Longrightarrow>
     doFlush p now s = s\<lparr>timer := None, renderErrors := renderErrors s @ [err]\<rparr>"
  by (cases s) (simp add: doFlush_def rendered_def Let_def)

lemma doFlush_same:
  "\<not> stopped s \<Longrightarrow> \<not> inFlight s \<Longrightarrow> rendered p s = Inr (lastSentContent s) \<Longrightarrow>
     doFlush p now s =
       s\<lparr>timer := None, inFlight := True, frames := frames s @ [AwaitSendOrEdit None]\<rparr>"
  by (cases s) (simp add: doFlush_def sendOrEdit_def rendered_def Let_def)

lemma doFlush_new:
  "\<not> stopped s \<Longrightarrow> \<not> inFlight s \<Longrightarrow> rendered p s = Inr content \<Longrightarrow>
   content \<noteq> lastSentContent s \<Longrightarrow>
     doFlush p now s =
       (let c = (case truthyId (messageId s) of
                   None \<Rightarrow> SendMessage content
                 | Some mid \<Rightarrow> EditMessageText mid content)
        in s\<lparr>timer := None, inFlight := True, lastSentContent := content,
             lastSentAt := now, calls := calls s @ [(now, c)],
             frames := frames s @ [AwaitTransport c]\<rparr>)"
  by (cases s)
    (simp add: doFlush_def sendOrEdit_def issue_def rendered_def Let_def split: option.split)

text \<open>The five ways through \<open>doFlush\<close>.\<close>

lemma doFlush_cases [case_names stopped inFlight throws same new]:
  obtains
    (stopped) "stopped s" and "doFlush p now s = s"
  | (inFlight) "\<not> stopped s" and "inFlight s"
      and "doFlush p now s = s\<lparr>timer := None, pendingUpdate := True\<rparr>"
  | (throws) err where "\<not> stopped s" and "\<not> inFlight s" and "rendered p s = Inl err"
      and "doFlush p now s = s\<lparr>timer := None, renderErrors := renderErrors s @ [err]\<rparr>"
  | (same) "\<not> stopped s" and "\<not> inFlight s" and "rendered p s = Inr (lastSentContent s)"
      and "doFlush p now s =
             s\<lparr>timer := None, inFlight := True,
               frames := frames s @ [AwaitSendOrEdit None]\<rparr>"
  | (new) content c where "\<not> stopped s" and "\<not> inFlight s"
      and "rendered p s = Inr content" and "content \<noteq> lastSentContent s"
      and "c = (case truthyId (messageId s) of
                  None \<Rightarrow> SendMessage content
                | Some mid \<Rightarrow> EditMessageText mid content)"
      and "doFlush p now s =
             s\<lparr>timer := None, inFlight := True, lastSentContent := content,
               lastSentAt := now, calls := calls s @ [(now, c)],
               frames := frames s @ [AwaitTransport c]\<rparr>"
proof (cases "stopped s")
  case True
  then show ?thesis
    by (intro stopped) (simp_all add: doFlush_stopped)
next
  case ns: False
  show ?thesis
  proof (cases "inFlight s")
    case True
    with ns show ?thesis
      by (intro inFlight) (simp_all add: doFlush_inFlight)
  next
    case nf: False
    show ?thesis
    proof (cases "rendered p s")
      case (Inl err)
      with ns nf show ?thesis
        by (intro throws [of err]) (simp_all add: doFlush_throws)
    next
      case (Inr content)
      show ?thesis
      proof (cases "content = lastSentContent s")
        case True
        with ns nf Inr show ?thesis
          by (intro same) (simp_all add: doFlush_same)
      next
        case False
        from doFlush_new [OF ns nf Inr False, of now]
        have "doFlush p now s =
               s\<lparr>timer := None, inFlight := True, lastSentContent := content,
                 lastSentAt := now,
                 calls := calls s @ [(now, case truthyId (messageId s) of
                                             None \<Rightarrow> SendMessage content
                                           | Some mid \<Rightarrow> EditMessageText mid content)],
                 frames := frames s @ [AwaitTransport
                                         (case truthyId (messageId s) of
                                            None \<Rightarrow> SendMessage content
                                          | Some mid \<Rightarrow> EditMessageText mid content)]\<rparr>"
          by (simp add: Let_def)
        with ns nf Inr False show ?thesis
          by (intro new [of content "case truthyId (messageId s) of
                                       None \<Rightarrow> SendMessage content
                                     | Some mid \<Rightarrow> EditMessageText mid content"])
            simp_all
      qed
    qed
  qed
qed

text \<open>
  In a session that is not stopped the timer callback does what \<open>flush\<close> does:
  whenever it runs, it delivers as a call of \<open>flush\<close> at that time would.
\<close>

lemma timerCallback_flush: "\<not> stopped s \<Longrightarrow> timerCallback p now s = flush p now s"
proof -
  assume ns: "\<not> stopped s"
  have a: "\<And>s0. (if timer s0 \<noteq> None then s0\<lparr>timer := None\<rparr> else s0) = s0\<lparr>timer := None\<rparr>"
    using clearTimer_eq by (simp add: clearTimer_def)
  from ns show ?thesis
    unfolding timerCallback_def flush_def doFlush_def a by simp
qed

lemma triggerUpdate_stopped: "stopped s \<Longrightarrow> triggerUpdate p now s = s"
  by (simp add: triggerUpdate_def)

lemma settle_Some:
  assumes "settle i out s = Some s1"
  shows "i < length (frames s) \<and> (\<exists>c. frames s ! i = AwaitTransport c)"
proof -
  from assms have i: "i < length (frames s)"
    by (simp add: settle_def split: if_splits)
  moreover from assms i have "\<exists>c. frames s ! i = AwaitTransport c"
    by (cases "frames s ! i") (simp_all add: settle_def)
  ultimately show ?thesis by simp
qed

lemma settle_delivery:
  assumes "settle i out s = Some s1" and "frames s ! i = AwaitTransport c" and "isDelivery c"
  shows "frames s1 = (frames s)[i := AwaitSendOrEdit None] \<and> inFlight s1 = inFlight s
         \<and> lastSentContent s1 = lastSentContent s \<and> uncaught s1 = uncaught s
         \<and> lastSentAt s1 = lastSentAt s \<and> calls s1 = calls s \<and> stopped s1 = stopped s
         \<and> timer s1 = timer s \<and> pendingUpdate s1 = pendingUpdate s"
proof -
  from assms(1) have i: "i < length (frames s)"
    by (simp add: settle_Some)
  show ?thesis
  proof (cases out)
    case (Resolved mid)
    with assms i show ?thesis
      by (cases c) (auto simp: settle_def sendOrEditResume_def)
  next
    case (Rejected err)
    with assms i show ?thesis
      by (cases c) (auto simp: settle_def sendOrEditResume_def)
  qed
qed

lemma settle_other:
  assumes "settle i out s = Some s1" and "frames s ! i = AwaitTransport c" and "\<not> isDelivery c"
  shows "frames s1 = take i (frames s) @ drop (Suc i) (frames s) \<and> inFlight s1 = inFlight s
         \<and> lastSentContent s1 = lastSentContent s \<and> uncaught s1 = uncaught s
         \<and> lastSentAt s1 = lastSentAt s \<and> calls s1 = calls s \<and> stopped s1 = stopped s
         \<and> timer s1 = timer s \<and> pendingUpdate s1 = pendingUpdate s"
proof -
  from assms(1) have i: "i < length (frames s)"
    by (simp add: settle_Some)
  show ?thesis
  proof (cases out)
    case (Resolved mid)
    with assms i show ?thesis
      by (cases c) (auto simp: settle_def dropFrame_def)
  next
    case (Rejected err)
    with assms i show ?thesis
      by (cases c) (auto simp: settle_def dropFrame_def)
  qed
qed

lemma settle_rejected:
  assumes "settle i (Rejected err) s = Some s1" and "frames s ! i = AwaitTransport c"
    and "isDelivery c"
  shows "messageId s1 = messageId s \<and> delivered s1 = delivered s \<and> clock s1 = clock s
         \<and> logged s1 =
             logged s @ [failureLine (case truthyId (messageId s) of
                                        Some mid \<Rightarrow> ascii ''edit''
                                      | None \<Rightarrow> ascii ''send'') err]"
proof -
  from assms(1) have i: "i < length (frames s)"
    by (simp add: settle_Some)
  with assms show ?thesis
    by (cases c) (auto simp: settle_def sendOrEditResume_def)
qed

lemma resume_Some:
  assumes "resume p now i s = Some s1"
  shows "i < length (frames s)
         \<and> (\<exists>thrown. frames s ! i = AwaitSendOrEdit thrown
               \<and> s1 = doFlushResume p now thrown (dropFrame i s))"
proof -
  from assms have i: "i < length (frames s)"
    by (simp add: resume_def split: if_splits)
  moreover from assms i have
    "\<exists>thrown. frames s ! i = AwaitSendOrEdit thrown
       \<and> s1 = doFlushResume p now thrown (dropFrame i s)"
    by (cases "frames s ! i") (simp_all add: resume_def)
  ultimately show ?thesis by simp
qed

text \<open>
  The state \<open>toolEnd\<close> hands to \<open>triggerUpdate\<close> differs from the one it was
  called in only in the two tool collections.
\<close>

lemma toolEnd_pre:
  "\<exists>s0. toolEnd p now tid fl s = triggerUpdate p now s0 \<and> sameDelivery s s0
        \<and> uncaught s0 = uncaught s \<and> clock s0 = clock s"
  by (cases "map_of (activeTools s) tid") (auto simp: toolEnd_def sameDelivery_def)

text \<open>
  What an event runs, and on which state: \<open>triggerUpdate\<close> after the session state
  has been written, \<open>doFlush\<close>, one of the terminal calls, or a resumption. The
  state it runs on agrees with the state before the event on delivery and scheduling.
\<close>

lemma step_cases [consumes 1, case_names trigger flush timer stop delete collapse settle resume]:
  assumes "step p (now, e) s = Some s1"
  obtains
    (trigger) s0 where "triggering e" and "e \<noteq> Flush" and "e \<noteq> TimerFire"
      and "s1 = triggerUpdate p now s0" and "sameDelivery s s0" and "uncaught s0 = uncaught s"
      and "clock s0 = now" and "clock s \<le> now"
  | (flush) s0 where "e = Flush" and "s1 = doFlush p now s0" and "sameDelivery s s0"
      and "uncaught s0 = uncaught s" and "clock s0 = now" and "clock s \<le> now"
  | (timer) s0 due where "e = TimerFire" and "timer s = Some due" and "timer s0 = Some due"
      and "s1 = doFlush p now (s0\<lparr>timer := None\<rparr>)" and "sameDelivery s s0"
      and "uncaught s0 = uncaught s" and "clock s0 = now" and "clock s \<le> now"
  | (stop) s0 where "e = Stop" and "s1 = stop s0" and "sameDelivery s s0"
      and "uncaught s0 = uncaught s" and "clock s0 = now" and "clock s \<le> now"
  | (delete) s0 where "e = Delete" and "s1 = delete now s0" and "sameDelivery s s0"
      and "uncaught s0 = uncaught s" and "clock s0 = now" and "clock s \<le> now"
  | (collapse) s0 summary where "e = Collapse summary" and "s1 = collapse now summary s0"
      and "sameDelivery s s0" and "uncaught s0 = uncaught s"
      and "clock s0 = now" and "clock s \<le> now"
  | (settle) s0 i out where "e = Settle i out" and "settle i out s0 = Some s1"
      and "sameDelivery s s0" and "uncaught s0 = uncaught s"
      and "clock s0 = now" and "clock s \<le> now"
  | (resume) s0 i where "e = Resume i" and "resume p now i s0 = Some s1"
      and "sameDelivery s s0" and "uncaught s0 = uncaught s"
      and "clock s0 = now" and "clock s \<le> now"
proof -
  let ?s = "s\<lparr>clock := now\<rparr>"
  from assms have late: "\<not> now < clock s"
    by (auto simp: step_def Let_def split: if_splits)
  then have le: "clock s \<le> now"
    by simp
  have same: "sameDelivery s ?s" "uncaught ?s = uncaught s" "clock ?s = now"
    by (simp_all add: sameDelivery_def)
  show ?thesis
  proof (cases e)
    case Start
    with assms late have "s1 = triggerUpdate p now ?s"
      by (simp add: step_simps start_def)
    with Start same le show ?thesis by (intro trigger [of ?s]) simp_all
  next
    case (Update body)
    let ?s0 = "?s\<lparr>thinkingText := Some body\<rparr>"
    from Update assms late have "s1 = triggerUpdate p now ?s0"
      by (simp add: step_simps update_def)
    with Update le show ?thesis by (intro trigger [of ?s0]) (simp_all add: sameDelivery_def)
  next
    case (ToolStart tid nm as)
    let ?s0 = "?s\<lparr>activeTools :=
                 AList.update tid \<lparr>name = nm, args = as, startedAt = now\<rparr> (activeTools ?s)\<rparr>"
    from ToolStart assms late have "s1 = triggerUpdate p now ?s0"
      by (simp add: step_simps toolStart_def)
    with ToolStart le show ?thesis by (intro trigger [of ?s0]) (simp_all add: sameDelivery_def)
  next
    case (ToolEnd tid fl)
    from toolEnd_pre [of p now tid fl ?s] obtain s0 where
      eq: "toolEnd p now tid fl ?s = triggerUpdate p now s0"
      and sd: "sameDelivery ?s s0" and un: "uncaught s0 = uncaught ?s"
      and cl: "clock s0 = clock ?s"
      by blast
    from ToolEnd assms late eq have "s1 = triggerUpdate p now s0"
      by (simp add: step_simps)
    moreover from sd have "sameDelivery s s0"
      by (simp add: sameDelivery_def)
    ultimately show ?thesis
      using ToolEnd un cl le by (intro trigger [of s0]) simp_all
  next
    case Flush
    with assms late have "s1 = doFlush p now ?s"
      by (simp add: step_simps flush_def)
    with Flush same le show ?thesis by (intro flush [of ?s]) simp_all
  next
    case TimerFire
    with assms late obtain due where "timer s = Some due"
      and "s1 = doFlush p now (?s\<lparr>timer := None\<rparr>)"
      by (auto simp: step_simps timerCallback_def split: option.splits)
    with TimerFire same le show ?thesis by (intro timer [of due ?s]) simp_all
  next
    case Stop
    with assms late have "s1 = stop ?s"
      by (simp add: step_simps)
    with Stop same le show ?thesis by (intro stop [of ?s]) simp_all
  next
    case Delete
    with assms late have "s1 = delete now ?s"
      by (simp add: step_simps)
    with Delete same le show ?thesis by (intro delete [of ?s]) simp_all
  next
    case (Collapse summary)
    with assms late have "s1 = collapse now summary ?s"
      by (simp add: step_simps)
    with Collapse same le show ?thesis by (intro collapse [of summary ?s]) simp_all
  next
    case (Settle i out)
    with assms late have "settle i out ?s = Some s1"
      by (simp add: step_simps)
    with Settle same le show ?thesis by (intro settle [of i out ?s]) simp_all
  next
    case (Resume i)
    with assms late have "resume p now i ?s = Some s1"
      by (simp add: step_simps)
    with Resume same le show ?thesis by (intro resume [of i ?s]) simp_all
  qed
qed

text \<open>An invariant that every event keeps holds at the end of every run.\<close>

lemma run_invariant:
  assumes "\<And>s te s1. P s \<Longrightarrow> step p te s = Some s1 \<Longrightarrow> P s1"
  shows "P s \<Longrightarrow> run p s tes = Some s1 \<Longrightarrow> P s1"
proof (induction tes arbitrary: s)
  case Nil
  then show ?case by simp
next
  case (Cons te tes)
  from Cons.prems(2) obtain s0 where
    st: "step p te s = Some s0" and rest: "run p s0 tes = Some s1"
    by (auto split: option.splits)
  from Cons.prems(1) st have "P s0"
    by (rule assms)
  then show ?case
    using rest by (rule Cons.IH)
qed

subsection \<open>One delivery cycle at a time\<close>

lemma filter_count_update:
  "i < length fs \<Longrightarrow> P (fs ! i) = P f \<Longrightarrow>
     length (filter P (fs[i := f])) = length (filter P fs)"
proof (induction fs arbitrary: i)
  case Nil
  then show ?case by simp
next
  case (Cons x xs)
  then show ?case by (cases i) auto
qed

lemma filter_count_drop:
  "i < length fs \<Longrightarrow>
     length (filter P (take i fs @ drop (Suc i) fs)) =
       length (filter P fs) - (if P (fs ! i) then 1 else 0)"
proof (induction fs arbitrary: i)
  case Nil
  then show ?case by simp
next
  case (Cons x xs)
  show ?case
  proof (cases i)
    case 0
    then show ?thesis by simp
  next
    case (Suc j)
    with Cons.prems have j: "j < length xs" by simp
    have pos: "P (xs ! j) \<Longrightarrow> 0 < length (filter P xs)"
      using j by (auto simp: filter_empty_conv)
    show ?thesis
      using Cons.IH [OF j] Suc pos by auto
  qed
qed

lemma in_set_dropped: "x \<in> set (take i fs @ drop (Suc i) fs) \<Longrightarrow> x \<in> set fs"
  by (auto dest: in_set_takeD in_set_dropD)

lemma in_set_updated: "x \<in> set (fs[i := f]) \<Longrightarrow> x = f \<or> x \<in> set fs"
  by (meson insertE set_update_subset_insert subsetD)

lemma flightInv_init: "flightInv createThinkingUpdater"
  by (simp add: flightInv_def createThinkingUpdater_def)

lemma flightInv_same:
  "sameDelivery s s0 \<Longrightarrow> uncaught s0 = uncaught s \<Longrightarrow> flightInv s0 = flightInv s"
  by (simp add: flightInv_def sameDelivery_def)

lemma flightInv_cong:
  "frames s1 = frames s \<Longrightarrow> inFlight s1 = inFlight s \<Longrightarrow>
     lastSentContent s1 = lastSentContent s \<Longrightarrow> uncaught s1 = uncaught s \<Longrightarrow>
     flightInv s1 = flightInv s"
  by (simp add: flightInv_def)

lemma flightInv_timer: "flightInv (s\<lparr>timer := t\<rparr>) = flightInv s"
  by (simp add: flightInv_def)

lemma flightInv_schedule: "flightInv (schedule p now s) = flightInv s"
  by (simp add: schedule_def Let_def flightInv_timer)

lemma no_cycle_frames:
  "\<forall>f\<in>set fs. \<not> cycleFrame f \<Longrightarrow> AwaitTransport c \<in> set fs \<Longrightarrow> isDelivery c \<Longrightarrow> False"
  by force

lemma flightInv_doFlush:
  assumes "flightInv s"
  shows "flightInv (doFlush p now s)"
proof (cases rule: doFlush_cases [of s p now])
  case stopped
  with assms show ?thesis by simp
next
  case inFlight
  with assms show ?thesis by (simp add: flightInv_def)
next
  case (throws err)
  with assms show ?thesis by (simp add: flightInv_def)
next
  case same
  with assms show ?thesis by (simp add: flightInv_def)
next
  case (new content c)
  from assms new(2) have none: "filter cycleFrame (frames s) = []"
    by (simp add: flightInv_def)
  then have "\<forall>f\<in>set (frames s). \<not> cycleFrame f"
    by (simp add: filter_empty_conv)
  then have other: "\<And>c1. AwaitTransport c1 \<in> set (frames s) \<Longrightarrow> isDelivery c1 \<Longrightarrow> False"
    by (rule no_cycle_frames)
  from new(5) have del: "isDelivery c" and body: "contentOf c = content"
    by (simp_all split: option.split)
  from assms have "uncaught s = []"
      and "\<forall>err. AwaitSendOrEdit (Some err) \<notin> set (frames s)"
    by (simp_all add: flightInv_def)
  with none del body other show ?thesis
    unfolding new(6) flightInv_def by auto
qed

lemma flightInv_triggerUpdate: "flightInv s \<Longrightarrow> flightInv (triggerUpdate p now s)"
  unfolding triggerUpdate_def
  by (auto simp: flightInv_schedule flightInv_doFlush) (simp_all add: flightInv_def)

lemma flightInv_settle:
  assumes "flightInv s" and "settle i out s = Some s1"
  shows "flightInv s1"
proof -
  from assms(2) have i: "i < length (frames s)"
    by (simp add: settle_Some)
  from assms(2) obtain c where fr: "frames s ! i = AwaitTransport c"
    using settle_Some by blast
  show ?thesis
  proof (cases "isDelivery c")
    case True
    then have cyc: "cycleFrame (frames s ! i) = cycleFrame (AwaitSendOrEdit None)"
      by (simp add: fr)
    note eff = settle_delivery [OF assms(2) fr True]
    have count: "length (filter cycleFrame (frames s1)) = length (filter cycleFrame (frames s))"
      using eff filter_count_update [OF i cyc] by simp
    have mem: "\<And>f. f \<in> set (frames s1) \<Longrightarrow> f = AwaitSendOrEdit None \<or> f \<in> set (frames s)"
      using eff in_set_updated by metis
    show ?thesis
      unfolding flightInv_def
    proof (intro conjI allI impI)
      show "length (filter cycleFrame (frames s1)) = (if inFlight s1 then 1 else 0)"
        using assms(1) count eff by (simp add: flightInv_def)
    next
      fix c1 assume "AwaitTransport c1 \<in> set (frames s1)" and "isDelivery c1"
      then show "contentOf c1 = lastSentContent s1"
        using assms(1) mem eff by (auto simp: flightInv_def)
    next
      fix err show "AwaitSendOrEdit (Some err) \<notin> set (frames s1)"
        using assms(1) mem by (auto simp: flightInv_def)
    next
      show "uncaught s1 = []"
        using assms(1) eff by (simp add: flightInv_def)
    qed
  next
    case False
    then have notcyc: "\<not> cycleFrame (frames s ! i)"
      by (simp add: fr)
    note eff = settle_other [OF assms(2) fr False]
    have count: "length (filter cycleFrame (frames s1)) = length (filter cycleFrame (frames s))"
      using eff filter_count_drop [OF i, of cycleFrame] notcyc by simp
    have mem: "\<And>f. f \<in> set (frames s1) \<Longrightarrow> f \<in> set (frames s)"
      using eff in_set_dropped by metis
    show ?thesis
      unfolding flightInv_def
    proof (intro conjI allI impI)
      show "length (filter cycleFrame (frames s1)) = (if inFlight s1 then 1 else 0)"
        using assms(1) count eff by (simp add: flightInv_def)
    next
      fix c1 assume "AwaitTransport c1 \<in> set (frames s1)" and "isDelivery c1"
      then show "contentOf c1 = lastSentContent s1"
        using assms(1) mem eff by (auto simp: flightInv_def)
    next
      fix err show "AwaitSendOrEdit (Some err) \<notin> set (frames s1)"
        using assms(1) mem by (auto simp: flightInv_def)
    next
      show "uncaught s1 = []"
        using assms(1) eff by (simp add: flightInv_def)
    qed
  qed
qed

lemma flightInv_resume:
  assumes "flightInv s" and "resume p now i s = Some s1"
  shows "flightInv s1"
proof -
  from resume_Some [OF assms(2)] obtain thrown where
    i: "i < length (frames s)" and fr: "frames s ! i = AwaitSendOrEdit thrown"
    and s1: "s1 = doFlushResume p now thrown (dropFrame i s)"
    by blast
  from assms(1) have
    cnt: "length (filter cycleFrame (frames s)) = (if inFlight s then 1 else 0)"
    and content: "\<And>c. AwaitTransport c \<in> set (frames s) \<Longrightarrow> isDelivery c \<Longrightarrow>
                    contentOf c = lastSentContent s"
    and nothrow: "\<And>err. AwaitSendOrEdit (Some err) \<notin> set (frames s)"
    and unc: "uncaught s = []"
    unfolding flightInv_def by blast+
  have here: "AwaitSendOrEdit thrown \<in> set (frames s)"
    using i fr nth_mem by metis
  have none: "thrown = None"
  proof (cases thrown)
    case None
    then show ?thesis .
  next
    case (Some err)
    with here nothrow [of err] show ?thesis by simp
  qed
  have cyc: "cycleFrame (frames s ! i)"
    by (simp add: fr)
  have "cycleFrame (AwaitSendOrEdit thrown)"
    by simp
  with here have "filter cycleFrame (frames s) \<noteq> []"
    unfolding filter_empty_conv by blast
  then have "length (filter cycleFrame (frames s)) \<noteq> 0"
    by simp
  with cnt have fl: "inFlight s"
    by (cases "inFlight s") simp_all
  let ?s0 = "(dropFrame i s)\<lparr>inFlight := False\<rparr>"
  have fr0: "frames ?s0 = take i (frames s) @ drop (Suc i) (frames s)"
    by (simp add: dropFrame_def)
  have count: "length (filter cycleFrame (frames ?s0)) = 0"
    unfolding fr0 using cnt fl filter_count_drop [OF i, of cycleFrame] cyc
    by simp
  have mem: "\<And>f. f \<in> set (frames ?s0) \<Longrightarrow> f \<in> set (frames s)"
    unfolding fr0 by (rule in_set_dropped)
  have inv0: "flightInv ?s0"
    unfolding flightInv_def
  proof (intro conjI allI impI)
    show "length (filter cycleFrame (frames ?s0)) = (if inFlight ?s0 then 1 else 0)"
      using count by simp
  next
    fix c1 assume "AwaitTransport c1 \<in> set (frames ?s0)" and "isDelivery c1"
    then have "contentOf c1 = lastSentContent s"
      using mem content by blast
    then show "contentOf c1 = lastSentContent ?s0"
      by (simp add: dropFrame_def)
  next
    fix err show "AwaitSendOrEdit (Some err) \<notin> set (frames ?s0)"
      using mem nothrow by blast
  next
    show "uncaught ?s0 = []"
      using unc by (simp add: dropFrame_def)
  qed
  have "flightInv (?s0\<lparr>pendingUpdate := False\<rparr>) = flightInv ?s0"
    by (rule flightInv_cong) simp_all
  with inv0 show ?thesis
    unfolding s1 none doFlushResume_def Let_def
    by (simp add: flightInv_schedule)
qed

lemma flightInv_clearTimer: "flightInv (clearTimer s) = flightInv s"
  by (simp add: clearTimer_def flightInv_timer)

lemma flightInv_stopped: "flightInv (s\<lparr>stopped := b\<rparr>) = flightInv s"
  by (simp add: flightInv_def)

lemma flightInv_issue_other:
  "\<not> isDelivery c \<Longrightarrow> flightInv (issue now c s) = flightInv s"
  by (auto simp: flightInv_def issue_def)

lemma flightInv_stop: "flightInv (stop s) = flightInv s"
  by (simp add: stop_def flightInv_clearTimer flightInv_stopped)

lemma flightInv_delete: "flightInv (delete now s) = flightInv s"
  by (simp add: delete_def Let_def flightInv_clearTimer flightInv_stopped
      flightInv_issue_other split: option.split)

lemma flightInv_collapse: "flightInv (collapse now summary s) = flightInv s"
  by (simp add: collapse_def Let_def flightInv_clearTimer flightInv_stopped
      flightInv_issue_other split: option.split)

lemma flightInv_step:
  assumes "flightInv s" and "step p te s = Some s1"
  shows "flightInv s1"
proof -
  obtain now e where "te = (now, e)" by (cases te)
  with assms(2) have "step p (now, e) s = Some s1" by simp
  then show ?thesis
  proof (cases rule: step_cases)
    case (trigger s0)
    with assms(1) show ?thesis by (simp add: flightInv_same flightInv_triggerUpdate)
  next
    case (flush s0)
    with assms(1) show ?thesis by (simp add: flightInv_same flightInv_doFlush)
  next
    case (timer s0 due)
    with assms(1) show ?thesis by (simp add: flightInv_same flightInv_timer flightInv_doFlush)
  next
    case (stop s0)
    with assms(1) show ?thesis by (simp add: flightInv_same flightInv_stop)
  next
    case (delete s0)
    with assms(1) show ?thesis by (simp add: flightInv_same flightInv_delete)
  next
    case (collapse s0 summary)
    with assms(1) show ?thesis by (simp add: flightInv_same flightInv_collapse)
  next
    case (settle s0 i out)
    with assms(1) have "flightInv s0" by (simp add: flightInv_same)
    then show ?thesis using settle(2) by (rule flightInv_settle)
  next
    case (resume s0 i)
    with assms(1) have "flightInv s0" by (simp add: flightInv_same)
    then show ?thesis using resume(2) by (rule flightInv_resume)
  qed
qed

lemma flightInv_run:
  "flightInv s \<Longrightarrow> run p s tes = Some s1 \<Longrightarrow> flightInv s1"
  by (rule run_invariant [where P = flightInv]) (rule flightInv_step)

subsection \<open>A session that was never ended\<close>

lemma activeInv_init: "activeInv createThinkingUpdater"
  by (simp add: activeInv_def createThinkingUpdater_def)

lemma activeInv_same: "sameDelivery s s0 \<Longrightarrow> activeInv s0 = activeInv s"
  by (simp add: activeInv_def sameDelivery_def)

lemma activeInv_cong:
  "frames s1 = frames s \<Longrightarrow> stopped s1 = stopped s \<Longrightarrow> activeInv s1 = activeInv s"
  by (simp add: activeInv_def)

lemma activeInv_schedule: "activeInv (schedule p now s) = activeInv s"
  by (rule activeInv_cong) (simp_all add: schedule_eq)

lemma activeInv_doFlush:
  assumes "activeInv s"
  shows "activeInv (doFlush p now s)"
proof -
  from assms have ns: "\<not> stopped s"
    by (simp add: activeInv_def)
  show ?thesis
  proof (cases rule: doFlush_cases [of s p now])
    case stopped
    with assms show ?thesis by simp
  next
    case inFlight
    with assms show ?thesis by (simp add: activeInv_def)
  next
    case (throws err)
    with assms show ?thesis by (simp add: activeInv_def)
  next
    case same
    with assms show ?thesis by (simp add: activeInv_def)
  next
    case (new content c)
    from new(5) have "isDelivery c"
      by (simp split: option.split)
    with assms show ?thesis
      unfolding new(6) by (simp add: activeInv_def)
  qed
qed

lemma activeInv_triggerUpdate: "activeInv s \<Longrightarrow> activeInv (triggerUpdate p now s)"
proof -
  assume inv: "activeInv s"
  have "activeInv (s\<lparr>pendingUpdate := True\<rparr>) = activeInv s"
    by (rule activeInv_cong) simp_all
  with inv show ?thesis
    by (simp add: triggerUpdate_def activeInv_schedule activeInv_doFlush)
qed

lemma activeInv_settle:
  assumes "activeInv s" and "settle i out s = Some s1"
  shows "activeInv s1"
proof -
  from settle_Some [OF assms(2)] obtain c where
    i: "i < length (frames s)" and fr: "frames s ! i = AwaitTransport c"
    by blast
  have "frames s ! i \<in> set (frames s)"
    using i by simp
  with assms(1) fr have del: "isDelivery c"
    by (auto simp: activeInv_def)
  note eff = settle_delivery [OF assms(2) fr del]
  have "\<And>f. f \<in> set (frames s1) \<Longrightarrow> cycleFrame f"
  proof -
    fix f assume "f \<in> set (frames s1)"
    then have "f = AwaitSendOrEdit None \<or> f \<in> set (frames s)"
      using eff in_set_updated by metis
    then show "cycleFrame f"
      using assms(1) by (auto simp: activeInv_def)
  qed
  then show ?thesis
    using assms(1) eff by (simp add: activeInv_def)
qed

lemma activeInv_resume:
  assumes "activeInv s" and "resume p now i s = Some s1"
  shows "activeInv s1"
proof -
  from resume_Some [OF assms(2)] obtain thrown where
    i: "i < length (frames s)"
    and s1: "s1 = doFlushResume p now thrown (dropFrame i s)"
    by blast
  have d: "activeInv (dropFrame i s)"
    using assms(1) by (auto simp: activeInv_def dropFrame_def dest: in_set_takeD in_set_dropD)
  have frames1: "frames s1 = frames (dropFrame i s)"
    unfolding s1 doFlushResume_def Let_def
    by (simp add: schedule_eq split: option.split)
  have stopped1: "stopped s1 = stopped (dropFrame i s)"
    unfolding s1 doFlushResume_def Let_def
    by (simp add: schedule_eq split: option.split)
  from frames1 stopped1 have "activeInv s1 = activeInv (dropFrame i s)"
    by (rule activeInv_cong)
  with d show ?thesis by simp
qed

lemma activeInv_step:
  assumes "activeInv s" and "step p te s = Some s1" and "\<not> terminal (snd te)"
  shows "activeInv s1"
proof -
  obtain now e where te: "te = (now, e)" by (cases te)
  with assms(2) have "step p (now, e) s = Some s1" by simp
  then show ?thesis
  proof (cases rule: step_cases)
    case (trigger s0)
    with assms(1) show ?thesis by (simp add: activeInv_same activeInv_triggerUpdate)
  next
    case (flush s0)
    with assms(1) show ?thesis by (simp add: activeInv_same activeInv_doFlush)
  next
    case (timer s0 due)
    from assms(1) timer(5) have "activeInv (s0\<lparr>timer := None\<rparr>)"
      by (simp add: activeInv_def sameDelivery_def)
    with timer(4) show ?thesis by (simp add: activeInv_doFlush)
  next
    case (stop s0)
    with assms(3) te show ?thesis by simp
  next
    case (delete s0)
    with assms(3) te show ?thesis by simp
  next
    case (collapse s0 summary)
    with assms(3) te show ?thesis by simp
  next
    case (settle s0 i out)
    with assms(1) have "activeInv s0" by (simp add: activeInv_same)
    then show ?thesis using settle(2) by (rule activeInv_settle)
  next
    case (resume s0 i)
    with assms(1) have "activeInv s0" by (simp add: activeInv_same)
    then show ?thesis using resume(2) by (rule activeInv_resume)
  qed
qed

lemma activeInv_run:
  "activeInv s \<Longrightarrow> run p s tes = Some s1 \<Longrightarrow> \<forall>te\<in>set tes. \<not> terminal (snd te) \<Longrightarrow>
     activeInv s1"
proof (induction tes arbitrary: s)
  case Nil
  then show ?case by simp
next
  case (Cons te tes)
  from Cons.prems(2) obtain s0 where
    st: "step p te s = Some s0" and rest: "run p s0 tes = Some s1"
    by (auto split: option.splits)
  from Cons.prems(3) have nt: "\<not> terminal (snd te)" and nts: "\<forall>te\<in>set tes. \<not> terminal (snd te)"
    by simp_all
  from Cons.prems(1) st nt have "activeInv s0"
    by (rule activeInv_step)
  then show ?case
    using rest nts by (rule Cons.IH)
qed

lemma outstanding_length: "length (outstanding fs) \<le> length fs"
  by (induction fs rule: outstanding.induct) simp_all

lemma all_cycle_frames: "\<forall>f\<in>set fs. cycleFrame f \<Longrightarrow> filter cycleFrame fs = fs"
  by (induction fs) simp_all

lemma triggering_in_flight:
  assumes "\<not> stopped s" and "inFlight s" and "triggering e" and "step p (now, e) s = Some s1"
  shows "calls s1 = calls s \<and> frames s1 = frames s \<and> inFlight s1 \<and> pendingUpdate s1"
  using assms(4)
proof (cases rule: step_cases)
  case (trigger s0)
  with assms(1,2) have "\<not> stopped s0" and "inFlight s0"
    by (simp_all add: sameDelivery_def)
  then have "triggerUpdate p now s0 = schedule p now (s0\<lparr>pendingUpdate := True\<rparr>)"
    by (simp add: triggerUpdate_def)
  with trigger(4,5) assms(2) show ?thesis
    by (simp add: schedule_eq sameDelivery_def)
next
  case (flush s0)
  with assms(1,2) have "\<not> stopped s0" and "inFlight s0"
    by (simp_all add: sameDelivery_def)
  with flush(2,3) assms(2) show ?thesis
    by (simp add: doFlush_inFlight sameDelivery_def)
next
  case (timer s0 due)
  with assms(1,2) have "\<not> stopped (s0\<lparr>timer := None\<rparr>)" and "inFlight (s0\<lparr>timer := None\<rparr>)"
    by (simp_all add: sameDelivery_def)
  with timer(4,5) assms(2) show ?thesis
    by (simp add: doFlush_inFlight sameDelivery_def)
next
  case (stop s0)
  with assms(3) show ?thesis by simp
next
  case (delete s0)
  with assms(3) show ?thesis by simp
next
  case (collapse s0 summary)
  with assms(3) show ?thesis by simp
next
  case (settle s0 i out)
  with assms(3) show ?thesis by simp
next
  case (resume s0 i)
  with assms(3) show ?thesis by simp
qed

text \<open>
  C2. In a session driven by \<open>start\<close>, \<open>update\<close>, \<open>toolStart\<close>, \<open>toolEnd\<close>,
  \<open>flush\<close> and timer firings, with transport calls settling in between, at most
  one transport call is outstanding in every reachable state, and one is outstanding
  only while \<open>inFlight\<close> is set. A triggering event that arrives while
  \<open>inFlight\<close> is set issues no call and starts no delivery cycle: the log of calls
  and the suspended calls stay as they are, and \<open>pendingUpdate\<close> is set.
\<close>

theorem single_flight:
  assumes "run p createThinkingUpdater tes = Some s"
    and "\<forall>te\<in>set tes. \<not> terminal (snd te)"
  shows "length (outstanding (frames s)) \<le> 1
         \<and> (outstanding (frames s) \<noteq> [] \<longrightarrow> inFlight s)
         \<and> (\<forall>now e s1. inFlight s \<longrightarrow> triggering e \<longrightarrow> step p (now, e) s = Some s1 \<longrightarrow>
               calls s1 = calls s \<and> frames s1 = frames s \<and> inFlight s1 \<and> pendingUpdate s1)"
proof -
  have fl: "flightInv s"
    using flightInv_init assms(1) by (rule flightInv_run)
  have ac: "activeInv s"
    using activeInv_init assms by (rule activeInv_run)
  from ac have ns: "\<not> stopped s" and cyc: "\<forall>f\<in>set (frames s). cycleFrame f"
    by (simp_all add: activeInv_def)
  from fl have "length (filter cycleFrame (frames s)) = (if inFlight s then 1 else 0)"
    by (simp add: flightInv_def)
  with cyc have len: "length (frames s) = (if inFlight s then 1 else 0)"
    by (simp add: all_cycle_frames)
  have a: "length (outstanding (frames s)) \<le> 1"
    using outstanding_length [of "frames s"] len by (simp split: if_splits)
  have b: "outstanding (frames s) \<noteq> [] \<longrightarrow> inFlight s"
    using len by (cases "inFlight s") auto
  have c: "\<forall>now e s1. inFlight s \<longrightarrow> triggering e \<longrightarrow> step p (now, e) s = Some s1 \<longrightarrow>
             calls s1 = calls s \<and> frames s1 = frames s \<and> inFlight s1 \<and> pendingUpdate s1"
    using ns triggering_in_flight by blast
  from a b c show ?thesis by blast
qed

subsection \<open>The interval between deliveries\<close>

text \<open>
  The time a timer is asked for. When \<open>lastSentAt\<close> is not in the future and the
  interval is a delay that \<open>setTimeout\<close> takes as it is, the time is at least one
  interval after \<open>lastSentAt\<close>.
\<close>

lemma setTimeoutDelay_bound:
  assumes "l \<le> now" and "iv \<le> TIMEOUT_MAX"
  shows "l + iv \<le> now + setTimeoutDelay (max 0 (iv - (now - l)))"
proof -
  from assms have "max 0 (iv - (now - l)) \<le> TIMEOUT_MAX"
    by (simp add: TIMEOUT_MAX_def)
  then show ?thesis
    by (simp add: setTimeoutDelay_def max_def)
qed

lemma pacedInv_init: "pacedInv p createThinkingUpdater"
  by (simp add: pacedInv_def createThinkingUpdater_def)

lemma lastDeliveryAt_snoc:
  "lastDeliveryAt (cs @ [(t, c)]) = (if isDelivery c then Some t else lastDeliveryAt cs)"
  by (induction cs rule: lastDeliveryAt.induct) (simp_all split: option.split)

lemma pacedInv_enter:
  "pacedInv p s \<Longrightarrow> sameDelivery s s0 \<Longrightarrow> clock s \<le> clock s0 \<Longrightarrow> pacedInv p s0"
  by (simp add: pacedInv_def sameDelivery_def)

lemma pacedInv_cong:
  "timer s1 = timer s \<Longrightarrow> lastSentAt s1 = lastSentAt s \<Longrightarrow> calls s1 = calls s \<Longrightarrow>
     clock s1 = clock s \<Longrightarrow> pacedInv p s1 = pacedInv p s"
  by (simp add: pacedInv_def)

lemma pacedInv_timer_None: "pacedInv p s \<Longrightarrow> pacedInv p (s\<lparr>timer := None\<rparr>)"
  by (simp add: pacedInv_def)

lemma pacedInv_schedule:
  assumes "pacedInv p s" and "clock s = now"
  shows "pacedInv p (schedule p now s)"
proof (cases "timer s \<noteq> None \<or> stopped s")
  case True
  with assms(1) show ?thesis
    by (simp add: schedule_eq)
next
  case False
  from assms have le: "lastSentAt s \<le> now"
    by (simp add: pacedInv_def)
  have "lastSentAt s + updateIntervalOf p
          \<le> now + setTimeoutDelay (max 0 (updateIntervalOf p - (now - lastSentAt s)))"
    if "updateIntervalOf p \<le> TIMEOUT_MAX"
    using le that by (rule setTimeoutDelay_bound)
  with False assms(1) show ?thesis
    by (simp add: schedule_eq pacedInv_def)
qed

lemma pacedInv_doFlush:
  assumes "pacedInv p s" and "clock s = now"
  shows "pacedInv p (doFlush p now s)"
proof (cases rule: doFlush_cases [of s p now])
  case stopped
  with assms(1) show ?thesis by simp
next
  case inFlight
  with assms(1) show ?thesis by (simp add: pacedInv_def)
next
  case (throws err)
  with assms(1) show ?thesis by (simp add: pacedInv_def)
next
  case same
  with assms(1) show ?thesis by (simp add: pacedInv_def)
next
  case (new content c)
  from new(5) have "isDelivery c"
    by (simp split: option.split)
  with assms show ?thesis
    unfolding new(6) by (simp add: pacedInv_def lastDeliveryAt_snoc)
qed

lemma pacedInv_triggerUpdate:
  assumes "pacedInv p s" and "clock s = now"
  shows "pacedInv p (triggerUpdate p now s)"
proof -
  have "pacedInv p (s\<lparr>pendingUpdate := True\<rparr>) = pacedInv p s"
    by (rule pacedInv_cong) simp_all
  with assms(1) have "pacedInv p (s\<lparr>pendingUpdate := True\<rparr>)"
    by simp
  moreover have "clock (s\<lparr>pendingUpdate := True\<rparr>) = now"
    using assms(2) by simp
  ultimately have "pacedInv p (schedule p now (s\<lparr>pendingUpdate := True\<rparr>))"
    by (rule pacedInv_schedule)
  with assms show ?thesis
    by (simp add: triggerUpdate_def pacedInv_schedule pacedInv_doFlush)
qed

lemma settle_clock: "settle i out s = Some s1 \<Longrightarrow> clock s1 = clock s"
proof -
  assume a: "settle i out s = Some s1"
  from settle_Some [OF a] obtain c where i: "i < length (frames s)"
    and fr: "frames s ! i = AwaitTransport c"
    by blast
  from a i fr show ?thesis
    by (cases c; cases out) (auto simp: settle_def sendOrEditResume_def dropFrame_def)
qed

lemma pacedInv_settle:
  assumes "pacedInv p s" and "settle i out s = Some s1"
  shows "pacedInv p s1"
proof -
  from settle_Some [OF assms(2)] obtain c where fr: "frames s ! i = AwaitTransport c"
    by blast
  have same: "timer s1 = timer s \<and> lastSentAt s1 = lastSentAt s \<and> calls s1 = calls s"
  proof (cases "isDelivery c")
    case True
    from settle_delivery [OF assms(2) fr True] show ?thesis by blast
  next
    case False
    from settle_other [OF assms(2) fr False] show ?thesis by blast
  qed
  have "pacedInv p s1 = pacedInv p s"
    using same settle_clock [OF assms(2)] by (intro pacedInv_cong) blast+
  with assms(1) show ?thesis by simp
qed

lemma pacedInv_resume:
  assumes "pacedInv p s" and "clock s = now" and "resume p now i s = Some s1"
  shows "pacedInv p s1"
proof -
  from resume_Some [OF assms(3)] obtain thrown where
    s1: "s1 = doFlushResume p now thrown (dropFrame i s)"
    by blast
  have a: "pacedInv p ((dropFrame i s)\<lparr>inFlight := False\<rparr>)"
    using assms(1) by (simp add: pacedInv_def dropFrame_def)
  then have b: "pacedInv p ((dropFrame i s)\<lparr>inFlight := False, pendingUpdate := False\<rparr>)"
    by (simp add: pacedInv_def)
  have c: "clock ((dropFrame i s)\<lparr>inFlight := False, pendingUpdate := False\<rparr>) = now"
    using assms(2) by (simp add: dropFrame_def)
  show ?thesis
  proof (cases thrown)
    case None
    from b c have "pacedInv p
        (schedule p now ((dropFrame i s)\<lparr>inFlight := False, pendingUpdate := False\<rparr>))"
      by (rule pacedInv_schedule)
    with None a show ?thesis
      unfolding s1 doFlushResume_def Let_def by simp
  next
    case (Some err)
    with a show ?thesis
      unfolding s1 doFlushResume_def Let_def by (simp add: pacedInv_def)
  qed
qed

lemma pacedInv_stop: "pacedInv p s \<Longrightarrow> pacedInv p (stop s)"
  by (simp add: stop_def clearTimer_eq pacedInv_def)

lemma pacedInv_delete: "pacedInv p s \<Longrightarrow> pacedInv p (delete now s)"
  by (simp add: delete_def clearTimer_eq pacedInv_def issue_def Let_def lastDeliveryAt_snoc
      split: option.split)

lemma pacedInv_collapse: "pacedInv p s \<Longrightarrow> pacedInv p (collapse now summary s)"
  by (simp add: collapse_def clearTimer_eq pacedInv_def issue_def Let_def lastDeliveryAt_snoc
      split: option.split)

lemma pacedInv_step:
  assumes "pacedInv p s" and "step p te s = Some s1"
  shows "pacedInv p s1"
proof -
  obtain now e where "te = (now, e)" by (cases te)
  with assms(2) have "step p (now, e) s = Some s1" by simp
  then show ?thesis
  proof (cases rule: step_cases)
    case (trigger s0)
    from assms(1) trigger(5) have "pacedInv p s0"
      by (rule pacedInv_enter) (simp add: trigger)
    then show ?thesis
      unfolding trigger(4) using trigger(7) by (rule pacedInv_triggerUpdate)
  next
    case (flush s0)
    from assms(1) flush(3) have "pacedInv p s0"
      by (rule pacedInv_enter) (simp add: flush)
    then show ?thesis
      unfolding flush(2) using flush(5) by (rule pacedInv_doFlush)
  next
    case (timer s0 due)
    from assms(1) timer(5) have "pacedInv p s0"
      by (rule pacedInv_enter) (simp add: timer)
    then have "pacedInv p (s0\<lparr>timer := None\<rparr>)"
      by (rule pacedInv_timer_None)
    moreover have "clock (s0\<lparr>timer := None\<rparr>) = now"
      using timer(7) by simp
    ultimately show ?thesis
      unfolding timer(4) by (rule pacedInv_doFlush)
  next
    case (stop s0)
    from assms(1) stop(3) have "pacedInv p s0"
      by (rule pacedInv_enter) (simp add: stop)
    then show ?thesis
      unfolding stop(2) by (rule pacedInv_stop)
  next
    case (delete s0)
    from assms(1) delete(3) have "pacedInv p s0"
      by (rule pacedInv_enter) (simp add: delete)
    then show ?thesis
      unfolding delete(2) by (rule pacedInv_delete)
  next
    case (collapse s0 summary)
    from assms(1) collapse(3) have "pacedInv p s0"
      by (rule pacedInv_enter) (simp add: collapse)
    then show ?thesis
      unfolding collapse(2) by (rule pacedInv_collapse)
  next
    case (settle s0 i out)
    from assms(1) settle(3) have "pacedInv p s0"
      by (rule pacedInv_enter) (simp add: settle)
    then show ?thesis using settle(2) by (rule pacedInv_settle)
  next
    case (resume s0 i)
    from assms(1) resume(3) have "pacedInv p s0"
      by (rule pacedInv_enter) (simp add: resume)
    then show ?thesis using resume(5) resume(2) by (rule pacedInv_resume)
  qed
qed

lemma pacedInv_run:
  "pacedInv p s \<Longrightarrow> run p s tes = Some s1 \<Longrightarrow> pacedInv p s1"
  by (rule run_invariant [where P = "pacedInv p"]) (rule pacedInv_step)

text \<open>What a call of \<open>doFlush\<close> or \<open>triggerUpdate\<close> adds to the log of calls.\<close>

lemma doFlush_calls:
  "calls (doFlush p now s) = calls s
   \<or> (\<exists>c. isDelivery c \<and> calls (doFlush p now s) = calls s @ [(now, c)])"
proof (cases rule: doFlush_cases [of s p now])
  case (new content c)
  from new(5) have "isDelivery c"
    by (simp split: option.split)
  then show ?thesis
    unfolding new(6) by simp
qed simp_all

lemma triggerUpdate_delivers:
  assumes "calls (triggerUpdate p now s) \<noteq> calls s"
  shows "updateIntervalOf p \<le> now - lastSentAt s
         \<and> (\<exists>c. isDelivery c \<and> calls (triggerUpdate p now s) = calls s @ [(now, c)])"
proof -
  have sch: "\<And>s0. calls (schedule p now s0) = calls s0"
    by (simp add: schedule_eq)
  from assms sch have "triggerUpdate p now s = doFlush p now s
                       \<and> updateIntervalOf p \<le> now - lastSentAt s"
    by (auto simp: triggerUpdate_def split: if_splits)
  then show ?thesis
    using assms doFlush_calls [of p now s] by auto
qed

lemma settle_calls: "settle i out s = Some s1 \<Longrightarrow> calls s1 = calls s"
proof -
  assume a: "settle i out s = Some s1"
  from settle_Some [OF a] obtain c where fr: "frames s ! i = AwaitTransport c"
    by blast
  show ?thesis
  proof (cases "isDelivery c")
    case True
    from settle_delivery [OF a fr True] show ?thesis by blast
  next
    case False
    from settle_other [OF a fr False] show ?thesis by blast
  qed
qed

lemma resume_calls: "resume p now i s = Some s1 \<Longrightarrow> calls s1 = calls s"
proof -
  assume a: "resume p now i s = Some s1"
  from resume_Some [OF a] obtain thrown where
    s1: "s1 = doFlushResume p now thrown (dropFrame i s)"
    by blast
  show ?thesis
    unfolding s1 doFlushResume_def Let_def
    by (simp add: schedule_eq dropFrame_def split: option.split)
qed

lemma delete_calls:
  "calls (delete now s) = calls s
   \<or> (\<exists>c. \<not> isDelivery c \<and> calls (delete now s) = calls s @ [(now, c)])"
  by (simp add: delete_def clearTimer_eq issue_def Let_def split: option.split)

lemma collapse_calls:
  "calls (collapse now summary s) = calls s
   \<or> (\<exists>c. \<not> isDelivery c \<and> calls (collapse now summary s) = calls s @ [(now, c)])"
  by (simp add: collapse_def clearTimer_eq issue_def Let_def split: option.split)

text \<open>
  Every event leaves the log of calls as it is or appends one call, made at the time
  of the event. A delivery call appended by \<open>start\<close>, \<open>update\<close>,
  \<open>toolStart\<close> or \<open>toolEnd\<close> comes at least one interval after the time in
  \<open>lastSentAt\<close>: \<open>triggerUpdate\<close> has compared the two. The timer callback and
  \<open>flush\<close> call \<open>doFlush\<close>, which makes no such comparison.
\<close>

lemma step_calls:
  assumes "step p (now, e) s = Some s1"
  shows "calls s1 = calls s
         \<or> (\<exists>c. calls s1 = calls s @ [(now, c)]
               \<and> (isDelivery c \<longrightarrow>
                     e = Flush \<or> e = TimerFire \<or> updateIntervalOf p \<le> now - lastSentAt s))"
  using assms(1)
proof (cases rule: step_cases)
  case (trigger s0)
  then have c0: "calls s0 = calls s" and l0: "lastSentAt s0 = lastSentAt s"
    by (simp_all add: sameDelivery_def)
  show ?thesis
  proof (cases "calls s1 = calls s")
    case True
    then show ?thesis by simp
  next
    case False
    with c0 trigger(4) have "calls (triggerUpdate p now s0) \<noteq> calls s0" by simp
    from triggerUpdate_delivers [OF this] show ?thesis
      using c0 l0 trigger(4) by auto
  qed
next
  case (flush s0)
  then have "calls s0 = calls s"
    by (simp add: sameDelivery_def)
  with doFlush_calls [of p now s0] flush(1,2) show ?thesis by auto
next
  case (timer s0 due)
  then have c0: "calls (s0\<lparr>timer := None\<rparr>) = calls s"
    by (simp add: sameDelivery_def)
  with doFlush_calls [of p now "s0\<lparr>timer := None\<rparr>"] timer(1,4) show ?thesis by auto
next
  case (stop s0)
  then show ?thesis by (simp add: stop_def clearTimer_eq sameDelivery_def)
next
  case (delete s0)
  then have "calls s0 = calls s"
    by (simp add: sameDelivery_def)
  with delete_calls [of now s0] delete(2) show ?thesis by auto
next
  case (collapse s0 summary)
  then have "calls s0 = calls s"
    by (simp add: sameDelivery_def)
  with collapse_calls [of now summary s0] collapse(2) show ?thesis by auto
next
  case (settle s0 i out)
  with settle_calls [OF settle(2)] show ?thesis by (simp add: sameDelivery_def)
next
  case (resume s0 i)
  with resume_calls [OF resume(2)] show ?thesis by (simp add: sameDelivery_def)
qed

text \<open>
  C3, amended. Take a delivery call that follows an earlier one. When \<open>start\<close>,
  \<open>update\<close>, \<open>toolStart\<close> or \<open>toolEnd\<close> issues it, it is made at least
  one update interval after the earlier call, whatever the runtime does. When the timer
  callback issues it, the same holds under two conditions on the runtime and the
  configuration: the interval is at most \<open>TIMEOUT_MAX\<close>, so that no delay passed to
  \<open>setTimeout\<close> is replaced by 1, and the callback runs no earlier than the time the
  timer was asked for, on the clock that \<open>Date.now()\<close> reads. A delivery forced by
  \<open>flush\<close> is not held to the interval.
\<close>

theorem delivery_spacing:
  assumes "run p createThinkingUpdater tes = Some s"
    and "step p (now, e) s = Some s1"
    and "e \<noteq> Flush"
    and "e = TimerFire \<longrightarrow>
           updateIntervalOf p \<le> TIMEOUT_MAX \<and> (\<forall>due. timer s = Some due \<longrightarrow> due \<le> now)"
    and "calls s1 = calls s @ [(t, c)]" and "isDelivery c"
    and "lastDeliveryAt (calls s) = Some t0"
  shows "t = now \<and> updateIntervalOf p \<le> now - t0"
proof -
  have inv: "pacedInv p s"
    using pacedInv_init assms(1) by (rule pacedInv_run)
  with assms(7) have t0: "lastSentAt s = t0"
    by (simp add: pacedInv_def)
  from step_calls [OF assms(2)] assms(3,5,6) have now: "t = now"
    and far: "e = TimerFire \<or> updateIntervalOf p \<le> now - lastSentAt s"
    by auto
  have "updateIntervalOf p \<le> now - lastSentAt s" if fire: "e = TimerFire"
  proof -
    from assms(2) fire obtain due where due: "timer s = Some due"
      by (auto simp: step_simps split: if_splits option.splits)
    with assms(4) fire have "updateIntervalOf p \<le> TIMEOUT_MAX" and "due \<le> now"
      by simp_all
    with inv due show ?thesis
      by (simp add: pacedInv_def)
  qed
  with far now t0 show ?thesis
    by auto
qed

subsection \<open>The tool collections\<close>

lemma schedule_session:
  "thinkingText (schedule p now s) = thinkingText s"
  "activeTools (schedule p now s) = activeTools s"
  "completedTools (schedule p now s) = completedTools s"
  by (simp_all add: schedule_eq)

lemma doFlush_session:
  "thinkingText (doFlush p now s) = thinkingText s"
  "activeTools (doFlush p now s) = activeTools s"
  "completedTools (doFlush p now s) = completedTools s"
  by (simp_all add: doFlush_def sendOrEdit_def issue_def Let_def
      split: option.split sum.split)

lemma triggerUpdate_session:
  "thinkingText (triggerUpdate p now s) = thinkingText s"
  "activeTools (triggerUpdate p now s) = activeTools s"
  "completedTools (triggerUpdate p now s) = completedTools s"
  by (simp_all add: triggerUpdate_def doFlush_session schedule_session)

text \<open>
  C6. When \<open>toolEnd\<close> is called with an identifier that is not a key of the map of
  active tools, the map and the sequence of completed tools are the same after the call:
  no entry is removed and none is appended.
\<close>

theorem toolEnd_unknown_id:
  assumes "map_of (activeTools s) tid = None"
  shows "activeTools (toolEnd p now tid fl s) = activeTools s
         \<and> completedTools (toolEnd p now tid fl s) = completedTools s"
  using assms by (simp add: toolEnd_def triggerUpdate_session)

subsection \<open>The terminal state\<close>

lemma stopped_step:
  assumes "stopped s" and "step p te s = Some s1"
  shows "stopped s1"
proof -
  obtain now e where "te = (now, e)" by (cases te)
  with assms(2) have "step p (now, e) s = Some s1" by simp
  then show ?thesis
  proof (cases rule: step_cases)
    case (trigger s0)
    with assms(1) show ?thesis by (simp add: sameDelivery_def triggerUpdate_stopped)
  next
    case (flush s0)
    with assms(1) show ?thesis by (simp add: sameDelivery_def doFlush_stopped)
  next
    case (timer s0 due)
    with assms(1) show ?thesis by (simp add: sameDelivery_def doFlush_stopped)
  next
    case (stop s0)
    then show ?thesis by (simp add: stop_def clearTimer_eq)
  next
    case (delete s0)
    then show ?thesis
      by (simp add: delete_def clearTimer_eq issue_def Let_def split: option.split)
  next
    case (collapse s0 summary)
    then show ?thesis
      by (simp add: collapse_def clearTimer_eq issue_def Let_def split: option.split)
  next
    case (settle s0 i out)
    from settle_Some [OF settle(2)] obtain c where fr: "frames s0 ! i = AwaitTransport c"
      by blast
    have "stopped s1 = stopped s0"
    proof (cases "isDelivery c")
      case True
      from settle_delivery [OF settle(2) fr True] show ?thesis by blast
    next
      case False
      from settle_other [OF settle(2) fr False] show ?thesis by blast
    qed
    with assms(1) settle(3) show ?thesis by (simp add: sameDelivery_def)
  next
    case (resume s0 i)
    from resume_Some [OF resume(2)] obtain thrown where
      s1: "s1 = doFlushResume p now thrown (dropFrame i s0)"
      by blast
    from assms(1) resume(3) have "stopped s0"
      by (simp add: sameDelivery_def)
    then show ?thesis
      unfolding s1 doFlushResume_def Let_def
      by (simp add: schedule_eq dropFrame_def split: option.split)
  qed
qed

lemma stopped_run: "stopped s \<Longrightarrow> run p s tes = Some s1 \<Longrightarrow> stopped s1"
  by (rule run_invariant [where P = stopped]) (rule stopped_step)

lemma terminal_calls_stop:
  "stopped (stop s)" "stopped (delete now s)" "stopped (collapse now summary s)"
  by (simp_all add: stop_def delete_def collapse_def clearTimer_eq issue_def Let_def
      split: option.split)

text \<open>
  C4, amended. \<open>stop\<close>, \<open>delete\<close> and \<open>collapse\<close> set the flag \<open>stopped\<close>, and
  no event ever clears it. In a stopped session a call of \<open>update\<close>,
  \<open>toolStart\<close> or \<open>toolEnd\<close> issues no transport call, suspends nothing, arms no
  timer and leaves every variable of delivery and scheduling as it was. The session
  state is still written: \<open>update\<close> replaces the thinking text, \<open>toolStart\<close>
  stores the entry, and \<open>toolEnd\<close> moves an active entry to the completed ones.
\<close>

theorem terminal_is_quiet:
  assumes "stopped s"
  shows "(\<forall>tes s1. run p s tes = Some s1 \<longrightarrow> stopped s1)
         \<and> sameDelivery s (update p now body s)
         \<and> sameDelivery s (toolStart p now tid nm as s)
         \<and> sameDelivery s (toolEnd p now tid fl s)
         \<and> update p now body s = s\<lparr>thinkingText := Some body\<rparr>
         \<and> toolStart p now tid nm as s =
             s\<lparr>activeTools :=
                 AList.update tid \<lparr>name = nm, args = as, startedAt = now\<rparr> (activeTools s)\<rparr>
         \<and> (map_of (activeTools s) tid = Some entry \<longrightarrow>
               toolEnd p now tid fl s =
                 s\<lparr>activeTools := AList.delete tid (activeTools s),
                   completedTools := completedTools s @
                     [\<lparr>name = name entry, args = args entry, startedAt = startedAt entry,
                       failed = fl, duration = now - startedAt entry\<rparr>]\<rparr>)"
proof -
  have a: "\<forall>tes s1. run p s tes = Some s1 \<longrightarrow> stopped s1"
    using assms stopped_run by blast
  have u: "update p now body s = s\<lparr>thinkingText := Some body\<rparr>"
    using assms by (simp add: update_def triggerUpdate_stopped)
  have ts: "toolStart p now tid nm as s =
              s\<lparr>activeTools :=
                  AList.update tid \<lparr>name = nm, args = as, startedAt = now\<rparr> (activeTools s)\<rparr>"
    using assms by (simp add: toolStart_def triggerUpdate_stopped)
  have te: "sameDelivery s (toolEnd p now tid fl s)"
    using assms
    by (cases "map_of (activeTools s) tid")
       (simp_all add: toolEnd_def triggerUpdate_stopped sameDelivery_def)
  have mv: "map_of (activeTools s) tid = Some entry \<longrightarrow>
              toolEnd p now tid fl s =
                s\<lparr>activeTools := AList.delete tid (activeTools s),
                  completedTools := completedTools s @
                    [\<lparr>name = name entry, args = args entry, startedAt = startedAt entry,
                      failed = fl, duration = now - startedAt entry\<rparr>]\<rparr>"
    using assms by (simp add: toolEnd_def triggerUpdate_stopped)
  from a u ts te mv show ?thesis
    by (simp add: sameDelivery_def)
qed

subsection \<open>Skipping unchanged content\<close>

lemma outstanding_append: "outstanding (fs @ gs) = outstanding fs @ outstanding gs"
  by (induction fs rule: outstanding.induct) simp_all

lemma doFlush_unchanged_content:
  assumes "rendered p s = Inr (lastSentContent s)"
  shows "calls (doFlush p now s) = calls s
         \<and> outstanding (frames (doFlush p now s)) = outstanding (frames s)
         \<and> messageId (doFlush p now s) = messageId s
         \<and> lastSentContent (doFlush p now s) = lastSentContent s
         \<and> lastSentAt (doFlush p now s) = lastSentAt s"
proof (cases "stopped s")
  case True
  then show ?thesis by (simp add: doFlush_stopped)
next
  case ns: False
  show ?thesis
  proof (cases "inFlight s")
    case True
    with ns show ?thesis by (simp add: doFlush_inFlight)
  next
    case False
    with ns assms show ?thesis by (simp add: doFlush_same outstanding_append)
  qed
qed

text \<open>
  C5, amended. When \<open>flush\<close> is called on a session that is not stopped and the
  text rendered from the current state equals \<open>lastSentContent\<close>, the text of the
  most recent delivery attempt, whether or not that attempt succeeded, then no
  transport call is issued and the message identifier, \<open>lastSentContent\<close> and
  \<open>lastSentAt\<close> are unchanged.
\<close>

theorem flush_dedupe:
  assumes "\<not> stopped s" and "rendered p s = Inr (lastSentContent s)"
  shows "calls (flush p now s) = calls s
         \<and> outstanding (frames (flush p now s)) = outstanding (frames s)
         \<and> messageId (flush p now s) = messageId s
         \<and> lastSentContent (flush p now s) = lastSentContent s
         \<and> lastSentAt (flush p now s) = lastSentAt s"
  using doFlush_unchanged_content [OF assms(2)] by (simp add: flush_def)

subsection \<open>Collapsing before a message exists\<close>

text \<open>
  C10. When no message identifier exists, \<open>collapse\<close> issues no transport call
  and suspends nothing, whatever summary it is given; it sets \<open>stopped\<close> and
  clears the timer, and changes nothing else.
\<close>

theorem collapse_without_message:
  assumes "messageId s = None"
  shows "collapse now summary s = s\<lparr>stopped := True, timer := None\<rparr>
         \<and> calls (collapse now summary s) = calls s
         \<and> frames (collapse now summary s) = frames s
         \<and> stopped (collapse now summary s)
         \<and> timer (collapse now summary s) = None"
  using assms by (simp add: collapse_def clearTimer_eq truthyId_def Let_def)

subsection \<open>A failed delivery\<close>

text \<open>
  C1, amended. When the transport call of a delivery cycle is rejected, the exception
  is caught in \<open>sendOrEdit\<close> and logged with one line: none reaches \<open>doFlush\<close>
  or its caller, and the handler leaves the message identifier, \<open>lastSentContent\<close>
  and \<open>lastSentAt\<close> as they were while the call was in flight.
  \<open>lastSentContent\<close> already holds the text of the rejected call, set before the
  call was made and not rolled back, so a later \<open>flush\<close> that renders the same
  text issues no transport call.
\<close>

theorem failed_delivery_swallowed:
  assumes "run p createThinkingUpdater tes = Some s"
    and "frames s ! i = AwaitTransport c" and "isDelivery c"
    and "step p (t1, Settle i (Rejected err)) s = Some s1"
    and "step p (t2, Resume i) s1 = Some s2"
  shows "uncaught s1 = [] \<and> uncaught s2 = []
         \<and> frames s1 = (frames s)[i := AwaitSendOrEdit None]
         \<and> messageId s1 = messageId s \<and> lastSentAt s1 = lastSentAt s
         \<and> lastSentContent s1 = lastSentContent s
         \<and> messageId s2 = messageId s \<and> lastSentAt s2 = lastSentAt s
         \<and> lastSentContent s2 = lastSentContent s
         \<and> lastSentContent s = contentOf c
         \<and> calls s2 = calls s
         \<and> (rendered p s2 = Inr (contentOf c) \<longrightarrow> calls (flush p t3 s2) = calls s2)
         \<and> logged s1 =
             logged s @ [failureLine (case truthyId (messageId s) of
                                        Some mid \<Rightarrow> ascii ''edit''
                                      | None \<Rightarrow> ascii ''send'') err]
         \<and> logged s2 = logged s1"
proof -
  have inv: "flightInv s"
    using flightInv_init assms(1) by (rule flightInv_run)
  from assms(4) have late1: "\<not> t1 < clock s"
    by (auto simp: step_def Let_def split: if_splits)
  let ?s = "s\<lparr>clock := t1\<rparr>"
  from assms(4) late1 have st: "settle i (Rejected err) ?s = Some s1"
    by (simp add: step_simps)
  have fr: "frames ?s ! i = AwaitTransport c"
    using assms(2) by simp
  from settle_Some [OF st] have i: "i < length (frames s)"
    by simp
  note eff = settle_delivery [OF st fr assms(3)]
  note rej = settle_rejected [OF st fr assms(3)]
  from inv have unc: "uncaught s = []"
    by (simp add: flightInv_def)
  have "AwaitTransport c \<in> set (frames s)"
    using i assms(2) nth_mem by metis
  with inv assms(3) have content: "lastSentContent s = contentOf c"
    by (simp add: flightInv_def)
  have fr1: "frames s1 = (frames s)[i := AwaitSendOrEdit None]"
    using eff by simp
  then have at1: "frames s1 ! i = AwaitSendOrEdit None"
    using i by simp
  from assms(5) have late2: "\<not> t2 < clock s1"
    by (auto simp: step_def Let_def split: if_splits)
  from assms(5) late2 have "resume p t2 i (s1\<lparr>clock := t2\<rparr>) = Some s2"
    by (simp add: step_simps)
  from resume_Some [OF this] at1 have
    s2: "s2 = doFlushResume p t2 None (dropFrame i (s1\<lparr>clock := t2\<rparr>))"
    by auto
  have f1: "uncaught s1 = [] \<and> messageId s1 = messageId s \<and> lastSentAt s1 = lastSentAt s
            \<and> lastSentContent s1 = lastSentContent s \<and> calls s1 = calls s"
    using eff rej unc by simp
  have f2: "uncaught s2 = uncaught s1 \<and> messageId s2 = messageId s1
            \<and> lastSentAt s2 = lastSentAt s1 \<and> lastSentContent s2 = lastSentContent s1
            \<and> calls s2 = calls s1"
    unfolding s2 doFlushResume_def Let_def
    by (simp add: schedule_eq dropFrame_def)
  have lg1: "logged s1 =
               logged s @ [failureLine (case truthyId (messageId s) of
                                          Some mid \<Rightarrow> ascii ''edit''
                                        | None \<Rightarrow> ascii ''send'') err]"
    using rej by simp
  have lg2: "logged s2 = logged s1"
    unfolding s2 doFlushResume_def Let_def
    by (simp add: schedule_eq dropFrame_def)
  have retry: "rendered p s2 = Inr (contentOf c) \<longrightarrow> calls (flush p t3 s2) = calls s2"
  proof
    assume "rendered p s2 = Inr (contentOf c)"
    with f1 f2 content have "rendered p s2 = Inr (lastSentContent s2)"
      by simp
    from doFlush_unchanged_content [OF this] show "calls (flush p t3 s2) = calls s2"
      by (simp add: flush_def)
  qed
  from f1 f2 fr1 content retry lg1 lg2 show ?thesis
    by simp
qed

section \<open>Worked examples\<close>

lemma exMsg_distinct:
  "exMsgA \<noteq> []" "exMsgB \<noteq> []" "exMsgA \<noteq> exMsgB" "exMsgB \<noteq> exMsgA"
  "[] \<noteq> exMsgA" "[] \<noteq> exMsgB"
  by (simp_all add: exMsgA_def exMsgB_def BRAIN_def ascii_def)

lemmas updater_defs =
  step_simps start_def update_def flush_def stop_def delete_def collapse_def toolStart_def
  toolEnd_def timerCallback_def settle_def resume_def triggerUpdate_def doFlush_def
  doFlushResume_def schedule_def setTimeoutDelay_def TIMEOUT_MAX_def sendOrEdit_def
  sendOrEditResume_def issue_def dropFrame_def clearTimer_def truthyId_def
  updateIntervalOf_def maxLengthOf_def Let_def exParams_def createThinkingUpdater_def

text \<open>The texts rendered from the thinking texts \<open>a\<close> and \<open>b\<close>.\<close>

lemma exMsg_fold:
  "buildMessage (Some (ascii ''a'')) [] [] exDisplay 3800 = Inr exMsgA"
  "buildMessage (Some (ascii ''b'')) [] [] exDisplay 3800 = Inr exMsgB"
  by (simp_all add: exMsgA_def exMsgB_def exDisplay_def buildMessage_def composed_def
      buildParts_def toolParts_def thinkingParts_def capResult_def ascii_def trimThinking_def
      escapeHtml_def replaceAll_def BRAIN_def)

lemma run_exSending:
  "run exParams createThinkingUpdater [(1000, Update (ascii ''a''))] = Some exSending"
  by (simp add: updater_defs exMsg_fold exMsg_distinct exSending_def)

lemma step_exFailed:
  "step exParams (1200, Settle 0 (Rejected (ascii ''boom''))) exSending = Some exFailed"
  by (simp add: updater_defs exSending_def exFailed_def)

lemma step_exFailedIdle: "step exParams (1200, Resume 0) exFailed = Some exFailedIdle"
  by (simp add: updater_defs exSending_def exFailed_def exFailedIdle_def)

lemma run_exDelivered:
  "run exParams createThinkingUpdater
     [(1000, Update (ascii ''a'')), (1200, Settle 0 (Resolved 7)), (1200, Resume 0)]
   = Some exDelivered"
  by (simp add: updater_defs exMsg_fold exMsg_distinct exSending_def exDelivered_def)

lemma run_exArmed:
  "run exParams createThinkingUpdater
     [(1000, Update (ascii ''a'')), (1200, Settle 0 (Resolved 7)), (1200, Resume 0),
      (1300, Update (ascii ''b''))]
   = Some exArmed"
  by (simp add: updater_defs exMsg_fold exMsg_distinct exSending_def exDelivered_def exArmed_def)

lemma run_exStale:
  "run exParams createThinkingUpdater
     [(1000, Update (ascii ''a'')), (1200, Settle 0 (Resolved 7)), (1200, Resume 0),
      (2000, Update (ascii ''b'')), (2200, Settle 0 (Rejected (ascii ''boom''))),
      (2200, Resume 0), (2300, Update (ascii ''a''))]
   = Some exStale"
  by (simp add: updater_defs exMsg_fold exMsg_distinct exStale_def)

lemma rendered_exFailedIdle: "rendered exParams exFailedIdle = Inr exMsgA"
  by (simp add: rendered_def exParams_def maxLengthOf_def exMsg_fold
      exSending_def exFailed_def exFailedIdle_def)

lemma rendered_exDelivered: "rendered exParams exDelivered = Inr exMsgA"
  by (simp add: rendered_def exParams_def maxLengthOf_def exMsg_fold
      exSending_def exDelivered_def)

lemma rendered_exStale: "rendered exParams exStale = Inr exMsgA"
  by (simp add: rendered_def exParams_def maxLengthOf_def exMsg_fold exStale_def)

text \<open>
  C6 on a session whose only active tool is \<open>t1\<close>: \<open>toolEnd("t2")\<close>.
\<close>

theorem toolEnd_unknown_id_witness:
  "map_of (activeTools exOneTool) (ascii ''t2'') = None
   \<and> activeTools (toolEnd exParams 2000 (ascii ''t2'') False exOneTool) = [(ascii ''t1'', exEntry 1)]
   \<and> completedTools (toolEnd exParams 2000 (ascii ''t2'') False exOneTool) = []"
proof -
  have h: "map_of (activeTools exOneTool) (ascii ''t2'') = None"
    by (simp add: exOneTool_def ascii_def)
  from toolEnd_unknown_id [OF h, of exParams 2000 False] h show ?thesis
    by (simp add: exOneTool_def createThinkingUpdater_def)
qed

text \<open>
  C10 on the session that \<open>start\<close> at time 100 leaves waiting for its timer.
\<close>

theorem collapse_without_message_witness:
  "run exParams createThinkingUpdater [(100, Start)] = Some exWaiting
   \<and> messageId exWaiting = None
   \<and> collapse 200 (Some (ascii ''done'')) exWaiting = exWaiting\<lparr>stopped := True, timer := None\<rparr>
   \<and> calls (collapse 200 (Some (ascii ''done'')) exWaiting) = []
   \<and> frames (collapse 200 (Some (ascii ''done'')) exWaiting) = []
   \<and> stopped (collapse 200 (Some (ascii ''done'')) exWaiting)
   \<and> timer (collapse 200 (Some (ascii ''done'')) exWaiting) = None"
proof -
  have r: "run exParams createThinkingUpdater [(100, Start)] = Some exWaiting"
    by (simp add: updater_defs exWaiting_def)
  have h: "messageId exWaiting = None"
    by (simp add: exWaiting_def createThinkingUpdater_def)
  from collapse_without_message [OF h, of 200 "Some (ascii ''done'')"] r h show ?thesis
    by (simp add: exWaiting_def createThinkingUpdater_def)
qed

text \<open>
  C5, amended, after the first message has been delivered: \<open>flush\<close> at time 1500.
\<close>

theorem flush_dedupe_witness:
  "run exParams createThinkingUpdater
     [(1000, Update (ascii ''a'')), (1200, Settle 0 (Resolved 7)), (1200, Resume 0)]
   = Some exDelivered
   \<and> stopped exDelivered = False
   \<and> rendered exParams exDelivered = Inr (lastSentContent exDelivered)
   \<and> calls (flush exParams 1500 exDelivered) = [(1000, SendMessage exMsgA)]
   \<and> outstanding (frames (flush exParams 1500 exDelivered)) = []
   \<and> messageId (flush exParams 1500 exDelivered) = Some 7
   \<and> lastSentContent (flush exParams 1500 exDelivered) = exMsgA
   \<and> lastSentAt (flush exParams 1500 exDelivered) = 1000"
proof -
  have h1: "\<not> stopped exDelivered"
    by (simp add: exDelivered_def exSending_def)
  have h2: "rendered exParams exDelivered = Inr (lastSentContent exDelivered)"
    by (simp add: rendered_exDelivered) (simp add: exDelivered_def exSending_def)
  from flush_dedupe [OF h1 h2, of 1500] run_exDelivered h1 h2 show ?thesis
    by (simp add: exDelivered_def exSending_def)
qed

text \<open>
  C5 as stated fails. The message with the text of \<open>a\<close> is delivered, the edit to
  the text of \<open>b\<close> is rejected, and \<open>update("a")\<close> makes the rendered text equal
  to the last text that was delivered; \<open>flush\<close> then issues an edit all the same,
  because \<open>lastSentContent\<close> holds the text of the rejected edit.
\<close>

theorem flush_resends_after_failure:
  "run exParams createThinkingUpdater
     [(1000, Update (ascii ''a'')), (1200, Settle 0 (Resolved 7)), (1200, Resume 0),
      (2000, Update (ascii ''b'')), (2200, Settle 0 (Rejected (ascii ''boom''))),
      (2200, Resume 0), (2300, Update (ascii ''a''))]
   = Some exStale
   \<and> stopped exStale = False
   \<and> delivered exStale = [exMsgA]
   \<and> rendered exParams exStale = Inr exMsgA
   \<and> calls (flush exParams 2400 exStale) = calls exStale @ [(2400, EditMessageText 7 exMsgA)]"
proof -
  have a: "stopped exStale = False" "delivered exStale = [exMsgA]"
    by (simp_all add: exStale_def)
  have n1: "\<not> stopped exStale" and n2: "\<not> inFlight exStale"
    and n3: "exMsgA \<noteq> lastSentContent exStale"
    and m: "truthyId (messageId exStale) = Some 7"
    by (simp_all add: exStale_def truthyId_def exMsg_distinct)
  from doFlush_new [OF n1 n2 rendered_exStale n3, of 2400] m
  have b: "calls (flush exParams 2400 exStale) =
             calls exStale @ [(2400, EditMessageText 7 exMsgA)]"
    by (simp add: flush_def Let_def)
  from run_exStale a rendered_exStale b show ?thesis
    by blast
qed

text \<open>
  C4, amended, on the session stopped right after its creation.
\<close>

theorem terminal_is_quiet_witness:
  "stopped (stop createThinkingUpdater)
   \<and> map_option stopped
        (run exParams (stop createThinkingUpdater) [(1000, Update (ascii ''x'')), (1001, Flush)])
      = Some True
   \<and> sameDelivery (stop createThinkingUpdater)
        (update exParams 1000 (ascii ''x'') (stop createThinkingUpdater))
   \<and> sameDelivery (stop createThinkingUpdater)
        (toolStart exParams 1000 (ascii ''t1'') (ascii ''read'') None (stop createThinkingUpdater))
   \<and> sameDelivery (stop createThinkingUpdater)
        (toolEnd exParams 1000 (ascii ''t1'') False (stop createThinkingUpdater))
   \<and> calls (update exParams 1000 (ascii ''x'') (stop createThinkingUpdater)) = []"
proof -
  have h: "stopped (stop createThinkingUpdater)"
    by (simp add: terminal_calls_stop)
  note q = terminal_is_quiet [OF h, of exParams 1000 "ascii ''x''" "ascii ''t1''" "ascii ''read''" None False]
  obtain s1 where r: "run exParams (stop createThinkingUpdater)
                        [(1000, Update (ascii ''x'')), (1001, Flush)] = Some s1"
    by (simp add: updater_defs)
  with q have "stopped s1" by blast
  with r have a: "map_option stopped
        (run exParams (stop createThinkingUpdater) [(1000, Update (ascii ''x'')), (1001, Flush)])
      = Some True"
    by simp
  from q have "sameDelivery (stop createThinkingUpdater)
                 (update exParams 1000 (ascii ''x'') (stop createThinkingUpdater))"
    by blast
  then have c: "calls (update exParams 1000 (ascii ''x'') (stop createThinkingUpdater)) = []"
    by (simp add: sameDelivery_def stop_def clearTimer_eq createThinkingUpdater_def)
  from h a q c show ?thesis by blast
qed

text \<open>
  C4 as stated fails: after \<open>stop\<close>, \<open>update\<close> still replaces the thinking text
  and \<open>toolStart\<close> still stores an entry in the map of active tools.
\<close>

theorem update_after_stop_mutates:
  "map_option stopped (run exParams createThinkingUpdater [(1000, Stop)]) = Some True
   \<and> map_option thinkingText (run exParams createThinkingUpdater [(1000, Stop)]) = Some None
   \<and> map_option thinkingText
        (run exParams createThinkingUpdater [(1000, Stop), (1001, Update (ascii ''x''))])
      = Some (Some (ascii ''x''))
   \<and> map_option activeTools
        (run exParams createThinkingUpdater
           [(1000, Stop), (1001, ToolStart (ascii ''t1'') (ascii ''read'') None)])
      = Some [(ascii ''t1'', \<lparr>name = ascii ''read'', args = None, startedAt = 1001\<rparr>)]"
  by (simp add: updater_defs)

text \<open>
  C1, amended, on the session whose first \<open>sendMessage\<close> is rejected.
\<close>

theorem failed_delivery_swallowed_witness:
  "run exParams createThinkingUpdater [(1000, Update (ascii ''a''))] = Some exSending
   \<and> step exParams (1200, Settle 0 (Rejected (ascii ''boom''))) exSending = Some exFailed
   \<and> step exParams (1200, Resume 0) exFailed = Some exFailedIdle
   \<and> uncaught exFailed = [] \<and> uncaught exFailedIdle = []
   \<and> messageId exFailedIdle = None \<and> lastSentAt exFailedIdle = 1000
   \<and> lastSentContent exFailedIdle = exMsgA
   \<and> rendered exParams exFailedIdle = Inr exMsgA
   \<and> calls (flush exParams 3000 exFailedIdle) = [(1000, SendMessage exMsgA)]
   \<and> logged exFailed = [ascii ''thinking-updater: send failed: boom'']"
proof -
  have fr: "frames exSending ! 0 = AwaitTransport (SendMessage exMsgA)"
    by (simp add: exSending_def)
  have del: "isDelivery (SendMessage exMsgA)"
    by simp
  note sw = failed_delivery_swallowed
    [OF run_exSending fr del step_exFailed step_exFailedIdle, of 3000]
  have fields: "messageId exSending = None" "lastSentAt exSending = 1000"
    "lastSentContent exSending = exMsgA" "calls exSending = [(1000, SendMessage exMsgA)]"
    "logged exSending = []"
    by (simp_all add: exSending_def)
  have line: "failureLine (ascii ''send'') (ascii ''boom'')
                = ascii ''thinking-updater: send failed: boom''"
    by (simp add: failureLine_def ascii_def)
  from sw fields line rendered_exFailedIdle run_exSending step_exFailed step_exFailedIdle
  show ?thesis
    by (simp add: truthyId_def)
qed

text \<open>
  C1 as stated fails. The cycle whose call is rejected has changed
  \<open>lastSentContent\<close> from the empty string to the text of the call, and the
  \<open>flush\<close> at time 3000, which renders the same text, issues no transport call:
  the log still holds the rejected call alone.
\<close>

theorem failed_delivery_not_retried:
  "lastSentContent createThinkingUpdater = []
   \<and> exMsgA \<noteq> []
   \<and> map_option lastSentContent
        (run exParams createThinkingUpdater
           [(1000, Update (ascii ''a'')), (1200, Settle 0 (Rejected (ascii ''boom''))),
            (1200, Resume 0)])
      = Some exMsgA
   \<and> map_option (rendered exParams)
        (run exParams createThinkingUpdater
           [(1000, Update (ascii ''a'')), (1200, Settle 0 (Rejected (ascii ''boom''))),
            (1200, Resume 0)])
      = Some (Inr exMsgA)
   \<and> map_option calls
        (run exParams createThinkingUpdater
           [(1000, Update (ascii ''a'')), (1200, Settle 0 (Rejected (ascii ''boom''))),
            (1200, Resume 0), (3000, Flush)])
      = Some [(1000, SendMessage exMsgA)]"
proof -
  have r3: "run exParams createThinkingUpdater
              [(1000, Update (ascii ''a'')), (1200, Settle 0 (Rejected (ascii ''boom''))),
               (1200, Resume 0)] = Some exFailedIdle"
    by (simp add: updater_defs exMsg_fold exMsg_distinct exSending_def exFailed_def
        exFailedIdle_def)
  have r4: "map_option calls
              (run exParams createThinkingUpdater
                 [(1000, Update (ascii ''a'')), (1200, Settle 0 (Rejected (ascii ''boom''))),
                  (1200, Resume 0), (3000, Flush)])
            = Some [(1000, SendMessage exMsgA)]"
    by (simp add: updater_defs exMsg_fold exMsg_distinct)
  have a: "lastSentContent createThinkingUpdater = []"
    by (simp add: createThinkingUpdater_def)
  have b: "lastSentContent exFailedIdle = exMsgA"
    by (simp add: exFailedIdle_def exFailed_def exSending_def)
  from a b r3 r4 rendered_exFailedIdle exMsg_distinct(1) show ?thesis
    by simp
qed

text \<open>
  C2 on the session with its first \<open>sendMessage\<close> outstanding:
  \<open>update("b")\<close> at time 1100.
\<close>

theorem single_flight_witness:
  "run exParams createThinkingUpdater [(1000, Update (ascii ''a''))] = Some exSending
   \<and> outstanding (frames exSending) = [SendMessage exMsgA]
   \<and> inFlight exSending
   \<and> map_option calls (step exParams (1100, Update (ascii ''b'')) exSending)
      = Some [(1000, SendMessage exMsgA)]
   \<and> map_option frames (step exParams (1100, Update (ascii ''b'')) exSending)
      = Some [AwaitTransport (SendMessage exMsgA)]
   \<and> map_option pendingUpdate (step exParams (1100, Update (ascii ''b'')) exSending)
      = Some True"
proof -
  have nt: "\<forall>te\<in>set [(1000::int, Update (ascii ''a''))]. \<not> terminal (snd te)"
    by simp
  note sf = single_flight [OF run_exSending nt]
  have fl: "inFlight exSending" and out: "outstanding (frames exSending) = [SendMessage exMsgA]"
    and c: "calls exSending = [(1000, SendMessage exMsgA)]"
    and f: "frames exSending = [AwaitTransport (SendMessage exMsgA)]"
    by (simp_all add: exSending_def)
  obtain s1 where st: "step exParams (1100, Update (ascii ''b'')) exSending = Some s1"
    by (simp add: step_simps exSending_def)
  have tr: "triggering (Update (ascii ''b''))"
    by simp
  from sf fl tr st have "calls s1 = calls exSending \<and> frames s1 = frames exSending
                         \<and> inFlight s1 \<and> pendingUpdate s1"
    by blast
  with st c f fl out run_exSending show ?thesis
    by simp
qed

text \<open>
  C3, amended, on both kinds of event. The timer armed by \<open>update("b")\<close> at time
  1300 is asked for 1800 and its callback runs at 1800, one interval after the delivery
  at 1000. Without a timer, \<open>update("b")\<close> at time 1900 delivers at once, 900
  milliseconds after the delivery at 1000.
\<close>

theorem delivery_spacing_witness:
  "run exParams createThinkingUpdater
     [(1000, Update (ascii ''a'')), (1200, Settle 0 (Resolved 7)), (1200, Resume 0),
      (1300, Update (ascii ''b''))]
   = Some exArmed
   \<and> lastDeliveryAt (calls exArmed) = Some 1000
   \<and> timer exArmed = Some 1800
   \<and> updateIntervalOf exParams \<le> TIMEOUT_MAX
   \<and> map_option calls (step exParams (1800, TimerFire) exArmed)
      = Some (calls exArmed @ [(1800, EditMessageText 7 exMsgB)])
   \<and> updateIntervalOf exParams \<le> 1800 - 1000
   \<and> run exParams createThinkingUpdater
        [(1000, Update (ascii ''a'')), (1200, Settle 0 (Resolved 7)), (1200, Resume 0)]
      = Some exDelivered
   \<and> lastDeliveryAt (calls exDelivered) = Some 1000
   \<and> map_option calls (step exParams (1900, Update (ascii ''b'')) exDelivered)
      = Some (calls exDelivered @ [(1900, EditMessageText 7 exMsgB)])
   \<and> updateIntervalOf exParams \<le> 1900 - 1000"
proof -
  have last: "lastDeliveryAt (calls exArmed) = Some 1000"
    by (simp add: exArmed_def exDelivered_def exSending_def)
  have tm: "timer exArmed = Some 1800"
    by (simp add: exArmed_def)
  have iv: "updateIntervalOf exParams \<le> TIMEOUT_MAX"
    by (simp add: updateIntervalOf_def exParams_def TIMEOUT_MAX_def)
  obtain s1 where st: "step exParams (1800, TimerFire) exArmed = Some s1"
    and cs: "calls s1 = calls exArmed @ [(1800, EditMessageText 7 exMsgB)]"
    by (simp add: updater_defs exMsg_fold exMsg_distinct exArmed_def exDelivered_def
        exSending_def)
  have ne: "TimerFire \<noteq> Flush"
    by simp
  have rt: "TimerFire = TimerFire \<longrightarrow>
              updateIntervalOf exParams \<le> TIMEOUT_MAX
              \<and> (\<forall>due. timer exArmed = Some due \<longrightarrow> due \<le> 1800)"
    using iv tm by simp
  have del: "isDelivery (EditMessageText 7 exMsgB)"
    by simp
  have fired: "updateIntervalOf exParams \<le> 1800 - 1000"
    using delivery_spacing [OF run_exArmed st ne rt cs del last] by simp
  have last2: "lastDeliveryAt (calls exDelivered) = Some 1000"
    by (simp add: exDelivered_def exSending_def)
  obtain s2 where st2: "step exParams (1900, Update (ascii ''b'')) exDelivered = Some s2"
    and cs2: "calls s2 = calls exDelivered @ [(1900, EditMessageText 7 exMsgB)]"
    by (simp add: updater_defs exMsg_fold exMsg_distinct exDelivered_def exSending_def)
  have ne2: "Update (ascii ''b'') \<noteq> Flush"
    by simp
  have rt2: "Update (ascii ''b'') = TimerFire \<longrightarrow>
               updateIntervalOf exParams \<le> TIMEOUT_MAX
               \<and> (\<forall>due. timer exDelivered = Some due \<longrightarrow> due \<le> 1900)"
    by simp
  have triggered: "updateIntervalOf exParams \<le> 1900 - 1000"
    using delivery_spacing [OF run_exDelivered st2 ne2 rt2 cs2 del last2] by simp
  from run_exArmed last tm iv st cs fired run_exDelivered last2 st2 cs2 triggered
  show ?thesis
    by simp
qed

text \<open>
  C3 as stated fails: \<open>flush\<close> at time 1400 issues the second delivery call 400
  milliseconds after the first, with the interval at 800.
\<close>

theorem flush_ignores_interval:
  "map_option calls
     (run exParams createThinkingUpdater
        [(1000, Update (ascii ''a'')), (1200, Settle 0 (Resolved 7)), (1200, Resume 0),
         (1300, Update (ascii ''b'')), (1400, Flush)])
   = Some [(1000, SendMessage exMsgA), (1400, EditMessageText 7 exMsgB)]
   \<and> updateIntervalOf exParams = 800
   \<and> (1400::int) - 1000 < 800"
  by (simp add: updater_defs exMsg_fold exMsg_distinct)


text \<open>
  The two conditions on the timer are needed. On the session that has delivered at
  1000 and armed its timer for 1800, a callback that the runtime runs at 1799 issues the
  next delivery 799 milliseconds after the previous one.
\<close>

lemma timer_fired_early:
  "timer exArmed = Some 1800
   \<and> map_option calls (step exParams (1799, TimerFire) exArmed)
       = Some [(1000, SendMessage exMsgA), (1799, EditMessageText 7 exMsgB)]
   \<and> updateIntervalOf exParams = 800"
  by (simp add: step_simps timerCallback_def doFlush_def sendOrEdit_def issue_def
      truthyId_def updateIntervalOf_def maxLengthOf_def Let_def exParams_def exMsg_fold
      exMsg_distinct exArmed_def exDelivered_def exSending_def)

text \<open>
  With an interval of 3000000000 milliseconds every delay that \<open>schedule\<close> computes
  in this session is above \<open>TIMEOUT_MAX\<close>, and \<open>setTimeout\<close> replaces it by 1:
  both timers are asked for one millisecond after they are armed, both callbacks run
  at the time asked for, and the second delivery is made 300 milliseconds after the
  first.
\<close>

lemma timer_delay_overflow:
  "updateIntervalOf exSlowParams = 3000000000
   \<and> map_option timer (run exSlowParams createThinkingUpdater [(1000, Update (ascii ''a''))])
       = Some (Some 1001)
   \<and> map_option timer
        (run exSlowParams createThinkingUpdater
           [(1000, Update (ascii ''a'')), (1001, TimerFire), (1200, Settle 0 (Resolved 7)),
            (1200, Resume 0), (1300, Update (ascii ''b''))])
       = Some (Some 1301)
   \<and> map_option calls
        (run exSlowParams createThinkingUpdater
           [(1000, Update (ascii ''a'')), (1001, TimerFire), (1200, Settle 0 (Resolved 7)),
            (1200, Resume 0), (1300, Update (ascii ''b'')), (1301, TimerFire)])
       = Some [(1001, SendMessage exMsgA), (1301, EditMessageText 7 exMsgB)]"
  by (simp add: step_simps start_def update_def timerCallback_def settle_def resume_def
      triggerUpdate_def doFlush_def doFlushResume_def schedule_def setTimeoutDelay_def
      TIMEOUT_MAX_def sendOrEdit_def sendOrEditResume_def issue_def dropFrame_def
      truthyId_def updateIntervalOf_def maxLengthOf_def Let_def exSlowParams_def
      createThinkingUpdater_def exMsg_fold exMsg_distinct)


text \<open>
  A session whose first event starts the tool \<open>Constructor\<close> with an empty
  argument object: \<open>doFlush\<close> ends with the exception of the renderer, before
  \<open>inFlight\<close> is set. No call is made and nothing is suspended.
\<close>

lemma rendered_exInherited:
  "rendered exParams (createThinkingUpdater\<lparr>activeTools := exInherited, clock := 1000\<rparr>)
     = Inl TypeError"
  by (simp add: rendered_def exParams_def maxLengthOf_def createThinkingUpdater_def
        render_throws_on_inherited_name)

lemma render_error_in_cycle:
  "run exParams createThinkingUpdater
     [(1000, ToolStart (ascii ''t1'') (ascii ''Constructor'') (Some []))]
   = Some (createThinkingUpdater
             \<lparr>activeTools := exInherited, renderErrors := [TypeError], clock := 1000\<rparr>)"
proof -
  let ?s = "createThinkingUpdater\<lparr>activeTools := exInherited, clock := 1000\<rparr>"
  have st: "step exParams (1000, ToolStart (ascii ''t1'') (ascii ''Constructor'') (Some []))
              createThinkingUpdater = Some (triggerUpdate exParams 1000 ?s)"
    by (simp add: step_simps toolStart_def createThinkingUpdater_def exInherited_def)
  have ns: "\<not> stopped ?s" and nf: "\<not> inFlight ?s"
    by (simp_all add: createThinkingUpdater_def)
  have tr: "triggerUpdate exParams 1000 ?s = doFlush exParams 1000 ?s"
    by (simp add: triggerUpdate_def createThinkingUpdater_def updateIntervalOf_def exParams_def)
  have fl: "doFlush exParams 1000 ?s
              = createThinkingUpdater
                  \<lparr>activeTools := exInherited, renderErrors := [TypeError], clock := 1000\<rparr>"
    unfolding doFlush_throws [OF ns nf rendered_exInherited, of 1000]
    by (simp add: createThinkingUpdater_def)
  from st tr fl show ?thesis
    by simp
qed

end
